theory Spec2Isabelle
  imports
    Main
    "HOL-Library.Word"
    "HOL-Library.Multiset"
    "HOL-Library.Char_ord"
    "HOL-Library.List_Lexorder"
begin

unbundle bit_operations_syntax

section \<open>Bytes, errors and the key-value store\<close>

type_synonym bytes = "8 word list"

text \<open>
  Every error return and panic of the Go source is a value of this type.
  \<open>IOError\<close> is a failure reported by the key-value store or by the underlying
  stream; \<open>ErrMsg\<close> carries the text of an error built with \<open>fmt.Errorf\<close> or
  \<open>errors.New\<close>; \<open>ErrSyntax\<close> and \<open>ErrRange\<close> are the errors of \<open>strconv\<close>;
  \<open>EOF\<close> is \<open>io.EOF\<close>; \<open>Panic\<close> is a Go run-time panic.
\<close>

datatype error =
    IOError
  | ErrMsg string
  | ErrNoChange
  | ErrBadNode
  | ErrNoHashFound string string
  | ErrSyntax
  | ErrRange
  | EOF
  | Panic

text \<open>
  Modelled from the spec: the interfaces \<open>KV\<close> and \<open>Bucket\<close> are not part of the
  source files; section 6 of the specification gives their operations
  (\<open>Bucket\<close>, \<open>Get\<close>, \<open>Put\<close>, \<open>Last\<close>, \<open>Foreach\<close>). A store is described by
  the entries of each bucket path, kept in ascending key order; a bucket without
  entries and a bucket that was never created are not distinguished, so that asking
  for a bucket creates nothing that can be observed. Each operation can fail with
  an I/O error: \<open>faulty\<close> names the operations on which the store reports one.
\<close>

datatype kv_op =
    OpBucket "string list"
  | OpGet "string list" string
  | OpPut "string list" string
  | OpLast "string list"
  | OpForeach "string list"

record KV =
  entries :: "string list \<Rightarrow> (string \<times> bytes) list"
  faulty :: "kv_op \<Rightarrow> bool"

type_synonym Bucket = "string list"

definition Bucket :: "KV \<Rightarrow> string list \<Rightarrow> error + Bucket" where
  "Bucket kv path = (if faulty kv (OpBucket path) then Inl IOError else Inr path)"

definition Get :: "KV \<Rightarrow> Bucket \<Rightarrow> string \<Rightarrow> error + bytes option" where
  "Get kv bkt key =
     (if faulty kv (OpGet bkt key) then Inl IOError
      else Inr (map_of (entries kv bkt) key))"

fun put_entry :: "string \<Rightarrow> bytes \<Rightarrow> (string \<times> bytes) list \<Rightarrow> (string \<times> bytes) list" where
  "put_entry k v [] = [(k, v)]"
| "put_entry k v ((k', v') # es) =
     (if k = k' then (k, v) # es
      else if k < k' then (k, v) # (k', v') # es
      else (k', v') # put_entry k v es)"

definition Put :: "KV \<Rightarrow> Bucket \<Rightarrow> string \<Rightarrow> bytes \<Rightarrow> error + KV" where
  "Put kv bkt key val =
     (if faulty kv (OpPut bkt key) then Inl IOError
      else Inr (kv\<lparr>entries := (entries kv)(bkt := put_entry key val (entries kv bkt))\<rparr>))"

definition Last :: "KV \<Rightarrow> Bucket \<Rightarrow> error + bytes option" where
  "Last kv bkt =
     (if faulty kv (OpLast bkt) then Inl IOError
      else Inr (case entries kv bkt of [] \<Rightarrow> None | es \<Rightarrow> Some (snd (last es))))"

fun foreach_entries ::
  "(string \<Rightarrow> bytes \<Rightarrow> 'a \<Rightarrow> error option \<times> 'a) \<Rightarrow> (string \<times> bytes) list \<Rightarrow> 'a \<Rightarrow>
     error option \<times> 'a" where
  "foreach_entries f [] acc = (None, acc)"
| "foreach_entries f ((k, v) # es) acc =
     (case f k v acc of
        (Some e, acc') \<Rightarrow> (Some e, acc')
      | (None, acc') \<Rightarrow> foreach_entries f es acc')"

text \<open>
  \<open>Foreach\<close> calls the function on every entry in key order and stops at the
  first error. The Go callbacks update variables they capture; here the captured
  variables are the accumulator, which is returned as it stands also when an error
  ends the iteration.
\<close>

definition Foreach ::
  "KV \<Rightarrow> Bucket \<Rightarrow> (string \<Rightarrow> bytes \<Rightarrow> 'a \<Rightarrow> error option \<times> 'a) \<Rightarrow> 'a \<Rightarrow>
     error option \<times> 'a" where
  "Foreach kv bkt f acc =
     (if faulty kv (OpForeach bkt) then (Some IOError, acc)
      else foreach_entries f (entries kv bkt) acc)"

section \<open>Big-endian 64-bit integers (encoding/binary)\<close>

definition PutUint64 :: "64 word \<Rightarrow> bytes" where
  "PutUint64 v = map (\<lambda>i. ucast (drop_bit (8 * i) v)) [7, 6, 5, 4, 3, 2, 1, 0]"

text \<open>\<open>binary.BigEndian.Uint64\<close> panics on a slice shorter than eight bytes.\<close>

definition Uint64 :: "bytes \<Rightarrow> error + 64 word" where
  "Uint64 b =
     (if length b < 8 then Inl Panic
      else Inr (foldl (\<lambda>acc x. push_bit 8 acc OR ucast x) 0 (take 8 b)))"

section \<open>The node counter\<close>

text \<open>
  \<open>FS.NextID\<close>. The only part of the file system it touches is the store, so the
  model takes and returns the store. When the final \<open>Put\<close> fails the source
  returns \<open>0, nil\<close>.
\<close>

definition NextID :: "KV \<Rightarrow> (error + 64 word) \<times> KV" where
  "NextID kv =
     (case Bucket kv [''stats''] of
        Inl e \<Rightarrow> (Inl e, kv)
      | Inr bkt \<Rightarrow>
          (case Get kv bkt ''node-count'' of
             Inl e \<Rightarrow> (Inl e, kv)
           | Inr nodeCount \<Rightarrow>
               (case (case nodeCount of
                        None \<Rightarrow> Inr 1
                      | Some b \<Rightarrow> (case Uint64 b of Inl e \<Rightarrow> Inl e | Inr c \<Rightarrow> Inr (c + 1))) of
                  Inl e \<Rightarrow> (Inl e, kv)
                | Inr cnt \<Rightarrow>
                    (case Put kv bkt ''node-count'' (PutUint64 cnt) of
                       Inl e \<Rightarrow> (Inr 0, kv)
                     | Inr kv' \<Rightarrow> (Inr cnt, kv')))))"

text \<open>
  The value of the persisted counter \<open>stats/node-count\<close> as \<open>NextID\<close> reads it: an
  absent entry counts as 0 (the first id handed out is 1).
\<close>

definition counter :: "KV \<Rightarrow> error + 64 word" where
  "counter kv =
     (case map_of (entries kv [''stats'']) ''node-count'' of
        None \<Rightarrow> Inr 0
      | Some b \<Rightarrow> Uint64 b)"

definition stats_ok :: "KV \<Rightarrow> bool" where
  "stats_ok kv \<longleftrightarrow>
     \<not> faulty kv (OpBucket [''stats'']) \<and>
     \<not> faulty kv (OpGet [''stats''] ''node-count'') \<and>
     \<not> faulty kv (OpPut [''stats''] ''node-count'')"

text \<open>\<open>n\<close> successive calls of \<open>NextID\<close> against one store, with their results in order.\<close>

fun NextID_calls :: "nat \<Rightarrow> KV \<Rightarrow> (error + 64 word) list \<times> KV" where
  "NextID_calls 0 kv = ([], kv)"
| "NextID_calls (Suc n) kv =
     (case NextID kv of (r, kv1) \<Rightarrow>
        (case NextID_calls n kv1 of (rs, kv2) \<Rightarrow> (r # rs, kv2)))"

text \<open>Concrete stores: an empty one, one whose counter is \<open>2^64 - 2\<close>, and an empty
  one that refuses to write the counter.\<close>

definition kv_empty :: KV where
  "kv_empty = \<lparr>entries = (\<lambda>_. []), faulty = (\<lambda>_. False)\<rparr>"

definition kv_near_wrap :: KV where
  "kv_near_wrap =
     \<lparr>entries = (\<lambda>_. [])([''stats''] := [(''node-count'', [255, 255, 255, 255, 255, 255, 255, 254])]),
      faulty = (\<lambda>_. False)\<rparr>"

definition kv_put_fails :: KV where
  "kv_put_fails = \<lparr>entries = (\<lambda>_. []), faulty = (\<lambda>op. op = OpPut [''stats''] ''node-count'')\<rparr>"

section \<open>strconv\<close>

definition hexdigit :: "nat \<Rightarrow> char" where
  "hexdigit d = ''0123456789abcdef'' ! d"

fun FormatUint16 :: "nat \<Rightarrow> string" where
  "FormatUint16 n = (if n < 16 then [hexdigit n] else FormatUint16 (n div 16) @ [hexdigit (n mod 16)])"

declare FormatUint16.simps [simp del]

text \<open>\<open>strconv.FormatUint(v, 16)\<close>: lower-case hexadecimal without leading zeros.\<close>

definition FormatUint :: "64 word \<Rightarrow> string" where
  "FormatUint v = FormatUint16 (unat v)"

section \<open>Checkpoints\<close>

datatype ChangeType = ChangeAdd | ChangeModify | ChangeRemove | ChangeMove

record Checkpoint =
  IDLink :: "64 word"
  Index :: "64 word"
  CkpHash :: bytes
  Change :: ChangeType
  Author :: string

text \<open>
  The serialization layer (protobuf messages and their \<open>Marshal\<close>/\<open>Unmarshal\<close>) is
  not part of the source files. Its functions are parameters of the model:
  \<open>marshalCheckpoint\<close> stands for \<open>ckp.ToProto\<close> followed by \<open>proto.Marshal\<close>,
  \<open>unmarshalCheckpoint\<close> for \<open>ckp.Unmarshal\<close>.
\<close>

record wire =
  marshalCheckpoint :: "Checkpoint \<Rightarrow> error + bytes"
  unmarshalCheckpoint :: "bytes \<Rightarrow> error + Checkpoint"

text \<open>A nil byte slice is read as the empty slice.\<close>

definition nilable :: "bytes option \<Rightarrow> bytes" where
  "nilable b = (case b of None \<Rightarrow> [] | Some x \<Rightarrow> x)"

text \<open>
  \<open>FS.LastCheckpoint\<close>. The body of the loop over the two bucket paths returns in
  every branch, so only the first path is ever visited.
\<close>

fun LastCheckpoint_loop :: "wire \<Rightarrow> KV \<Rightarrow> string list list \<Rightarrow> error + Checkpoint" where
  "LastCheckpoint_loop w kv [] = Inl (ErrMsg ''No last checkpoint'')"
| "LastCheckpoint_loop w kv (bktPath # rest) =
     (case Bucket kv bktPath of
        Inl e \<Rightarrow> Inl e
      | Inr bkt \<Rightarrow>
          (case Last kv bkt of
             Inl e \<Rightarrow> Inl e
           | Inr pckp \<Rightarrow>
               (case unmarshalCheckpoint w (nilable pckp) of
                  Inl e \<Rightarrow> Inl e
                | Inr ckp \<Rightarrow> Inr ckp)))"

definition LastCheckpoint :: "wire \<Rightarrow> KV \<Rightarrow> 64 word \<Rightarrow> error + Checkpoint" where
  "LastCheckpoint w kv idl =
     (let key = FormatUint idl;
          btkPaths = [[''checkpoints'', key], [''stage'', ''checkpoints'', key]]
      in LastCheckpoint_loop w kv btkPaths)"

text \<open>
  \<open>FS.History\<close>. The callback appends to \<open>history\<close>, and \<open>sort.Sort\<close> orders the
  result.

  Modelled from the spec: the methods \<open>Len\<close>, \<open>Less\<close> and \<open>Swap\<close> that \<open>sort.Sort\<close> calls
  on a \<open>History\<close> are not part of the source files. Section 4.3 says: sort by
  \<open>index\<close> ascending (the comment in \<open>History\<close> says: sort the history by the
  checkpoint indices). \<open>sort.Sort\<close> is not stable; \<open>sort_key\<close> fixes an order among
  checkpoints of equal index, and what is proved below does not depend on it.
\<close>

fun History_loop :: "wire \<Rightarrow> KV \<Rightarrow> string list list \<Rightarrow> Checkpoint list \<Rightarrow> error + Checkpoint list" where
  "History_loop w kv [] history = Inr history"
| "History_loop w kv (bktPath # rest) history =
     (case Bucket kv bktPath of
        Inl e \<Rightarrow> Inl e
      | Inr bkt \<Rightarrow>
          (case Foreach kv bkt
                  (\<lambda>key value h.
                     case unmarshalCheckpoint w value of
                       Inl e \<Rightarrow> (Some e, h)
                     | Inr ckp \<Rightarrow> (None, h @ [ckp]))
                  history of
             (Some e, history') \<Rightarrow> Inl e
           | (None, history') \<Rightarrow> History_loop w kv rest history'))"

definition History :: "wire \<Rightarrow> KV \<Rightarrow> 64 word \<Rightarrow> error + Checkpoint list" where
  "History w kv idl =
     (let key = FormatUint idl;
          btkPaths = [[''checkpoints'', key], [''stage'', ''checkpoints'', key]]
      in case History_loop w kv btkPaths [] of
           Inl e \<Rightarrow> Inl e
         | Inr history \<Rightarrow> Inr (sort_key Index history))"

text \<open>\<open>FS.StageCheckpoint\<close>: the key is the hexadecimal \<open>IDLink\<close> alone.\<close>

definition StageCheckpoint :: "wire \<Rightarrow> KV \<Rightarrow> Checkpoint \<Rightarrow> error option \<times> KV" where
  "StageCheckpoint w kv ckp =
     (case marshalCheckpoint w ckp of
        Inl e \<Rightarrow> (Some e, kv)
      | Inr data \<Rightarrow>
          (case Bucket kv [''stage'', ''checkpoints''] of
             Inl e \<Rightarrow> (Some e, kv)
           | Inr bkt \<Rightarrow>
               (let key = FormatUint (IDLink ckp)
                in case Put kv bkt key data of
                     Inl e \<Rightarrow> (Some e, kv)
                   | Inr kv' \<Rightarrow> (None, kv'))))"

text \<open>
  Concrete inputs: a small serialization (two big-endian integers), checkpoints, and
  stores holding serialized checkpoints.
\<close>

definition wire_toy :: wire where
  "wire_toy =
     \<lparr>marshalCheckpoint = (\<lambda>c. Inr (PutUint64 (IDLink c) @ PutUint64 (Index c))),
      unmarshalCheckpoint = (\<lambda>b.
         case Uint64 b of
           Inl e \<Rightarrow> Inl e
         | Inr i \<Rightarrow>
             (case Uint64 (drop 8 b) of
                Inl e \<Rightarrow> Inl e
              | Inr j \<Rightarrow> Inr \<lparr>IDLink = i, Index = j, CkpHash = [], Change = ChangeAdd, Author = []\<rparr>))\<rparr>"

definition ckp :: "64 word \<Rightarrow> 64 word \<Rightarrow> Checkpoint" where
  "ckp i j = \<lparr>IDLink = i, Index = j, CkpHash = [], Change = ChangeAdd, Author = []\<rparr>"

definition kv_stage_only :: KV where
  "kv_stage_only =
     \<lparr>entries = (\<lambda>_. [])([''stage'', ''checkpoints'', ''7''] :=
         [(''3'', PutUint64 7 @ PutUint64 3)]),
      faulty = (\<lambda>_. False)\<rparr>"

definition kv_history :: KV where
  "kv_history =
     \<lparr>entries = (\<lambda>_. [])
        ([''checkpoints'', ''7''] := [(''1'', PutUint64 7 @ PutUint64 1)],
         [''stage'', ''checkpoints'', ''7''] :=
           [(''2'', PutUint64 7 @ PutUint64 3), (''3'', PutUint64 7 @ PutUint64 2)]),
      faulty = (\<lambda>_. False)\<rparr>"

section \<open>The compression writer\<close>

text \<open>
  Modelled from the spec: the constants \<open>maxChunkSize\<close>, \<open>headerSize\<close>,
  \<open>indexChunkSize\<close> and \<open>trailerSize\<close>, the index record and the trailer with their
  \<open>marshal\<close> methods are not part of the source files. Sections 4.5 and 6 of the
  specification give them: chunks of 64 KiB, a header of 8 bytes, index records
  \<open>{rawOff: u64, zipOff: u64}\<close> of 16 bytes, a trailer
  \<open>{algoType: u16, chunkSize: u32, indexSize: u64}\<close> of 14 bytes, all integers
  big-endian.
\<close>

definition maxChunkSize :: nat where
  "maxChunkSize = 65536"

definition headerSize :: nat where
  "headerSize = 8"

definition indexChunkSize :: nat where
  "indexChunkSize = 16"

definition trailerSize :: nat where
  "trailerSize = 14"

type_synonym index_record = "64 word \<times> 64 word"

definition record_marshal :: "index_record \<Rightarrow> bytes" where
  "record_marshal r = PutUint64 (fst r) @ PutUint64 (snd r)"

record trailer =
  tr_algoType :: "16 word"
  chunksize :: "32 word"
  indexSize :: "64 word"

definition PutUint16 :: "16 word \<Rightarrow> bytes" where
  "PutUint16 v = map (\<lambda>i. ucast (drop_bit (8 * i) v)) [1, 0]"

definition PutUint32 :: "32 word \<Rightarrow> bytes" where
  "PutUint32 v = map (\<lambda>i. ucast (drop_bit (8 * i) v)) [3, 2, 1, 0]"

definition trailer_marshal :: "trailer \<Rightarrow> bytes" where
  "trailer_marshal t = PutUint16 (tr_algoType t) @ PutUint32 (chunksize t) @ PutUint64 (indexSize t)"

text \<open>
  The underlying stream \<open>rawW\<close> is an \<open>io.Writer\<close>: it appends what it is given.
  \<open>budget\<close> is the number of calls it still accepts before it reports an error
  (\<open>None\<close>: it never fails).
\<close>

record rawWriter =
  written :: bytes
  budget :: "nat option"

definition rawW_Write :: "rawWriter \<Rightarrow> bytes \<Rightarrow> (nat \<times> error option) \<times> rawWriter" where
  "rawW_Write rw p =
     (case budget rw of
        None \<Rightarrow> ((length p, None), rw\<lparr>written := written rw @ p\<rparr>)
      | Some 0 \<Rightarrow> ((0, Some IOError), rw)
      | Some (Suc k) \<Rightarrow> ((length p, None), rw\<lparr>written := written rw @ p, budget := Some k\<rparr>))"

text \<open>
  The algorithm registry and \<open>makeHeader\<close> are parameters: an algorithm is its
  \<open>Encode\<close> function; \<open>makeHeader cd t\<close> stands for
  \<open>makeHeader(algoType, currentVersion)\<close>.
\<close>

type_synonym Algorithm = "bytes \<Rightarrow> error + bytes"

record codec =
  AlgorithmFromType :: "16 word \<Rightarrow> error + Algorithm"
  makeHeader :: "16 word \<Rightarrow> bytes"

record Writer =
  rawW :: rawWriter
  chunkBuf :: bytes
  index :: "index_record list"
  rawOff :: "64 word"
  zipOff :: "64 word"
  trailer :: trailer
  algo :: Algorithm
  algoType :: "16 word"
  headerWritten :: bool

definition addRecordToIndex :: "Writer \<Rightarrow> Writer" where
  "addRecordToIndex w = w\<lparr>index := index w @ [(rawOff w, zipOff w)]\<rparr>"

definition flushBuffer :: "Writer \<Rightarrow> bytes \<Rightarrow> error option \<times> Writer" where
  "flushBuffer w data =
     (if length data \<le> 0 then (None, w)
      else
        (let w1 = addRecordToIndex w
         in case algo w1 data of
              Inl e \<Rightarrow> (Some e, w1)
            | Inr encData \<Rightarrow>
                (case rawW_Write (rawW w1) encData of
                   ((n, Some e), rw) \<Rightarrow> (Some e, w1\<lparr>rawW := rw\<rparr>)
                 | ((n, None), rw) \<Rightarrow>
                     (None, w1\<lparr>rawW := rw,
                                rawOff := rawOff w1 + of_nat (length data),
                                zipOff := zipOff w1 + of_nat n\<rparr>))))"

definition writeHeaderIfNeeded :: "codec \<Rightarrow> Writer \<Rightarrow> error option \<times> Writer" where
  "writeHeaderIfNeeded cd w =
     (if headerWritten w then (None, w)
      else
        (case rawW_Write (rawW w) (makeHeader cd (algoType w)) of
           ((n, Some e), rw) \<Rightarrow> (Some e, w\<lparr>rawW := rw\<rparr>)
         | ((n, None), rw) \<Rightarrow>
             (None, w\<lparr>rawW := rw, headerWritten := True,
                      zipOff := zipOff w + of_nat headerSize\<rparr>)))"

text \<open>
  An \<open>io.Reader\<close> is given by the results of its successive \<open>Read\<close> calls; once
  they are used up it reports \<open>io.EOF\<close>. A call cannot deliver more than the
  buffer holds.
\<close>

type_synonym Reader = "(bytes \<times> error option) list"

fun Read :: "Reader \<Rightarrow> nat \<Rightarrow> (bytes \<times> error option) \<times> Reader" where
  "Read [] m = (([], Some EOF), [])"
| "Read ((d, e) # r) m = ((take m d, e), r)"

text \<open>
  \<open>Writer.ReadFrom\<close>: every buffer that \<open>Read\<close> delivers is flushed as a chunk of
  its own. The loop ends with the reader's results, which get shorter with every call.
\<close>

lemma Read_shorter: "((buf, None), r') = Read r m \<Longrightarrow> length r' < length r"
  by (cases r) auto

function ReadFrom_loop :: "Writer \<Rightarrow> Reader \<Rightarrow> nat \<Rightarrow> (nat \<times> error option) \<times> Writer \<times> Reader" where
  "ReadFrom_loop w r rd =
     (case Read r maxChunkSize of
        ((buf, rerr), r') \<Rightarrow>
          (let rd' = rd + length buf
           in if rerr \<noteq> None \<and> rerr \<noteq> Some EOF then ((rd', rerr), w, r')
              else
                (case flushBuffer w buf of
                   (werr, w') \<Rightarrow>
                     if werr \<noteq> None \<and> werr \<noteq> Some EOF then ((rd', werr), w', r')
                     else if werr = Some EOF \<or> rerr = Some EOF then ((rd', None), w', r')
                     else ReadFrom_loop w' r' rd')))"
  by pat_completeness auto
termination
  by (relation "measure (\<lambda>(w, r, rd). length r)") (auto intro: Read_shorter)

declare ReadFrom_loop.simps [simp del]

definition ReadFrom :: "codec \<Rightarrow> Writer \<Rightarrow> Reader \<Rightarrow> (nat \<times> error option) \<times> Writer \<times> Reader" where
  "ReadFrom cd w r =
     (case writeHeaderIfNeeded cd w of
        (Some e, w') \<Rightarrow> ((0, Some e), w', r)
      | (None, w') \<Rightarrow> ReadFrom_loop w' r 0)"

text \<open>
  \<open>Writer.Write\<close>: the data goes through \<open>chunkBuf\<close>, which is cut into chunks of
  \<open>maxChunkSize\<close> bytes; what is left stays buffered until \<open>Close\<close>.
\<close>

lemma chunkBuf_flushBuffer [simp]: "chunkBuf (snd (flushBuffer w d)) = chunkBuf w"
  by (auto simp: flushBuffer_def addRecordToIndex_def Let_def split: sum.splits prod.splits option.splits)

function Write_loop :: "Writer \<Rightarrow> bytes \<Rightarrow> error option \<times> Writer" where
  "Write_loop w p =
     (let n = min (length p) maxChunkSize;
          w1 = w\<lparr>chunkBuf := chunkBuf w @ take n p\<rparr>
      in if length (chunkBuf w1) < maxChunkSize then (None, w1)
         else
           (case flushBuffer (w1\<lparr>chunkBuf := drop maxChunkSize (chunkBuf w1)\<rparr>)
                   (take maxChunkSize (chunkBuf w1)) of
              (Some e, w2) \<Rightarrow> (Some e, w2)
            | (None, w2) \<Rightarrow> Write_loop w2 (drop n p)))"
  by pat_completeness auto
termination
proof (relation "measure (\<lambda>(w, p). length (chunkBuf w) + length p)", goal_cases)
  case 1
  then show ?case by simp
next
  case (2 w p n w1 x y)
  from 2(4) [symmetric] have "chunkBuf y = chunkBuf (snd (flushBuffer (w1\<lparr>chunkBuf := drop maxChunkSize (chunkBuf w1)\<rparr>)
                   (take maxChunkSize (chunkBuf w1))))" by simp
  then have "chunkBuf y = drop maxChunkSize (chunkBuf w1)" by simp
  with 2 show ?case by (auto simp: maxChunkSize_def min_def split: if_splits)
qed

declare Write_loop.simps [simp del]

definition Write :: "codec \<Rightarrow> Writer \<Rightarrow> bytes \<Rightarrow> (nat \<times> error option) \<times> Writer" where
  "Write cd w p =
     (case writeHeaderIfNeeded cd w of
        (Some e, w') \<Rightarrow> ((0, Some e), w')
      | (None, w') \<Rightarrow>
          (case Write_loop w' p of
             (Some e, w'') \<Rightarrow> ((0, Some e), w'')
           | (None, w'') \<Rightarrow> ((length p, None), w'')))"

definition NewWriter :: "codec \<Rightarrow> rawWriter \<Rightarrow> 16 word \<Rightarrow> error + Writer" where
  "NewWriter cd rw t =
     (case AlgorithmFromType cd t of
        Inl e \<Rightarrow> Inl e
      | Inr a \<Rightarrow>
          Inr \<lparr>rawW = rw, chunkBuf = [], index = [], rawOff = 0, zipOff = 0,
               trailer = \<lparr>tr_algoType = 0, chunksize = 0, indexSize = 0\<rparr>,
               algo = a, algoType = t, headerWritten = False\<rparr>)"

text \<open>
  \<open>Writer.Close\<close>. The index buffer is filled record by record, \<open>indexChunkSize\<close>
  bytes each; the trailer fills its buffer of \<open>trailerSize\<close> bytes.
\<close>

definition Close :: "codec \<Rightarrow> Writer \<Rightarrow> error option \<times> Writer" where
  "Close cd w =
     (case writeHeaderIfNeeded cd w of
        (Some e, w1) \<Rightarrow> (Some e, w1)
      | (None, w1) \<Rightarrow>
          (case flushBuffer w1 (chunkBuf w1) of
             (Some e, w2) \<Rightarrow> (Some e, w2)
           | (None, w2) \<Rightarrow>
               (let w3 = addRecordToIndex w2;
                    w4 = w3\<lparr>trailer := (trailer w3)\<lparr>indexSize := of_nat (indexChunkSize * length (index w3))\<rparr>\<rparr>;
                    indexBuf = concat (map record_marshal (index w4))
                in case rawW_Write (rawW w4) indexBuf of
                     ((n, err), rw) \<Rightarrow>
                       if err \<noteq> None \<or> of_nat n \<noteq> indexSize (trailer w4)
                       then (err, w4\<lparr>rawW := rw\<rparr>)
                       else
                         (case rawW_Write rw (trailer_marshal (trailer w4)) of
                            ((m, Some e), rw') \<Rightarrow> (Some e, w4\<lparr>rawW := rw'\<rparr>)
                          | ((m, None), rw') \<Rightarrow> (None, w4\<lparr>rawW := rw'\<rparr>)))))"

text \<open>
  Concrete inputs: a codec whose algorithms copy their input and whose header has
  \<open>headerSize\<close> bytes, and an empty underlying stream that never fails.
\<close>

definition codec_toy :: codec where
  "codec_toy =
     \<lparr>AlgorithmFromType = (\<lambda>t. Inr (\<lambda>d. Inr d)),
      makeHeader = (\<lambda>t. [1, 2, 3, 4] @ PutUint16 t @ [0, 1])\<rparr>"

definition sink :: rawWriter where
  "sink = \<lparr>written = [], budget = None\<rparr>"

text \<open>
  The two ways of feeding a fresh writer: \<open>NewWriter\<close>, then \<open>ReadFrom\<close> or \<open>Write\<close>,
  then \<open>Close\<close>; the result is everything the underlying stream received, or the
  first error.
\<close>

definition out_ReadFrom :: "codec \<Rightarrow> rawWriter \<Rightarrow> 16 word \<Rightarrow> Reader \<Rightarrow> error + bytes" where
  "out_ReadFrom cd rw t r =
     (case NewWriter cd rw t of
        Inl e \<Rightarrow> Inl e
      | Inr w \<Rightarrow>
          (case ReadFrom cd w r of
             ((n, Some e), w', r') \<Rightarrow> Inl e
           | ((n, None), w', r') \<Rightarrow>
               (case Close cd w' of
                  (Some e, w'') \<Rightarrow> Inl e
                | (None, w'') \<Rightarrow> Inr (written (rawW w'')))))"

definition out_Write :: "codec \<Rightarrow> rawWriter \<Rightarrow> 16 word \<Rightarrow> bytes \<Rightarrow> error + bytes" where
  "out_Write cd rw t p =
     (case NewWriter cd rw t of
        Inl e \<Rightarrow> Inl e
      | Inr w \<Rightarrow>
          (case Write cd w p of
             ((n, Some e), w') \<Rightarrow> Inl e
           | ((n, None), w') \<Rightarrow>
               (case Close cd w' of
                  (Some e, w'') \<Rightarrow> Inl e
                | (None, w'') \<Rightarrow> Inr (written (rawW w'')))))"

text \<open>
  For the comparison of \<open>ReadFrom\<close> and \<open>Write\<close>: the writer after a successful flush
  of a chunk with an algorithm \<open>f\<close> that does not fail, a writer whose algorithm and
  underlying stream never fail, and the index and trailer that \<open>Close\<close> appends.
\<close>

definition flushed :: "(bytes \<Rightarrow> bytes) \<Rightarrow> Writer \<Rightarrow> bytes \<Rightarrow> Writer" where
  "flushed f w d =
     (if d = [] then w
      else (addRecordToIndex w)
             \<lparr>rawW := (rawW w)\<lparr>written := written (rawW w) @ f d\<rparr>,
              rawOff := rawOff w + of_nat (length d),
              zipOff := zipOff w + of_nat (length (f d))\<rparr>)"

definition reliable :: "(bytes \<Rightarrow> bytes) \<Rightarrow> Writer \<Rightarrow> bool" where
  "reliable f w \<longleftrightarrow> algo w = (\<lambda>d. Inr (f d)) \<and> budget (rawW w) = None"

definition closing :: "Writer \<Rightarrow> bytes" where
  "closing w =
     concat (map record_marshal (index w @ [(rawOff w, zipOff w)])) @
     trailer_marshal ((trailer w)\<lparr>indexSize := of_nat (indexChunkSize * length (index w @ [(rawOff w, zipOff w)]))\<rparr>)"

section \<open>Nodes and the file system handle\<close>

text \<open>
  Modelled from the spec: the node types \<open>File\<close>, \<open>Directory\<close> and \<open>Commit\<close> and the
  type \<open>Hash\<close> are not part of the source files. Section 3 of the specification
  gives their fields; every node carries the hash it is stored under, a hash is a
  byte string compared byte-wise, and a missing parent is \<open>None\<close>. A
  \<open>CheckpointLink\<close> is the pair \<open>(IDLink, index)\<close>.
\<close>

type_synonym Hash = bytes

record File =
  f_id :: "64 word"
  f_name :: string
  f_size :: "64 word"
  f_hash :: Hash
  f_content :: Hash
  f_parent :: "Hash option"

record Directory =
  d_id :: "64 word"
  d_name :: string
  d_size :: "64 word"
  d_hash :: Hash
  d_parent :: "Hash option"
  d_children :: "(string \<times> Hash) list"

record Commit =
  c_id :: "64 word"
  c_author :: string
  c_message :: string
  c_hash :: Hash
  c_root :: Hash
  c_parent :: "Hash option"
  changeset :: "(64 word \<times> 64 word) list"

datatype Node = FileNode File | DirectoryNode Directory | CommitNode Commit

datatype NodeType = NodeTypeFile | NodeTypeDirectory | NodeTypeCommit

fun GetType :: "Node \<Rightarrow> NodeType" where
  "GetType (FileNode f) = NodeTypeFile"
| "GetType (DirectoryNode d) = NodeTypeDirectory"
| "GetType (CommitNode c) = NodeTypeCommit"

fun Hash :: "Node \<Rightarrow> Hash" where
  "Hash (FileNode f) = f_hash f"
| "Hash (DirectoryNode d) = d_hash d"
| "Hash (CommitNode c) = c_hash c"

text \<open>
  The hash library, the serialization of nodes and \<open>nodePath\<close> are not part of the
  source files either; they are parameters. \<open>marshalNode\<close> stands for \<open>nd.ToProto\<close>
  followed by \<open>proto.Marshal\<close>, \<open>unmarshalNode\<close> for the function of that name (it
  only dispatches on what \<open>proto.Unmarshal\<close> and \<open>FromProto\<close> give), \<open>Cast\<close> for
  \<open>multihash.Cast\<close>, \<open>path_Join\<close> for \<open>path.Join\<close>, and \<open>hashOf\<close> for the hash
  function that names a node by its serialized form.
\<close>

record env =
  B58String :: "Hash \<Rightarrow> string"
  Cast :: "bytes \<Rightarrow> error + Hash"
  marshalNode :: "Node \<Rightarrow> error + bytes"
  unmarshalNode :: "bytes \<Rightarrow> error + Node"
  nodePath :: "Node \<Rightarrow> string"
  path_Join :: "string list \<Rightarrow> string"
  hashOf :: "bytes \<Rightarrow> Hash"

text \<open>
  Modelled from the spec: the path trie (\<open>trie.Node\<close>) is not part of the source
  files. Section 4.7 describes it as a map from paths to nodes: \<open>fs_root\<close> gives
  the data stored at a path, and a trie node is identified by its path, so that
  \<open>fs_index\<close> maps the base58 form of a hash to the path of the trie node that
  \<open>InsertWithData\<close> returned.
\<close>

record FS =
  fs_kv :: KV
  fs_root :: "string \<Rightarrow> Node option"
  fs_index :: "string \<Rightarrow> string option"

definition InsertWithData :: "FS \<Rightarrow> string \<Rightarrow> string \<Rightarrow> Node \<Rightarrow> FS" where
  "InsertWithData fs b58 p nd =
     fs\<lparr>fs_root := (fs_root fs)(p \<mapsto> nd), fs_index := (fs_index fs)(b58 \<mapsto> p)\<rparr>"

text \<open>\<open>strings.ToLower\<close> on ASCII.\<close>

definition ToLower :: "string \<Rightarrow> string" where
  "ToLower s =
     map (\<lambda>c. case map_of (zip ''ABCDEFGHIJKLMNOPQRSTUVWXYZ'' ''abcdefghijklmnopqrstuvwxyz'') c of
                None \<Rightarrow> c
              | Some l \<Rightarrow> l) s"

text \<open>\<open>strconv.ParseUint(s, 16, 64)\<close>.\<close>

definition digitval :: "char \<Rightarrow> nat option" where
  "digitval c =
     (if CHR ''0'' \<le> c \<and> c \<le> CHR ''9'' then Some (of_char c - 48)
      else if CHR ''a'' \<le> c \<and> c \<le> CHR ''z'' then Some (of_char c - 97 + 10)
      else if CHR ''A'' \<le> c \<and> c \<le> CHR ''Z'' then Some (of_char c - 65 + 10)
      else None)"

fun ParseUint_loop :: "nat \<Rightarrow> string \<Rightarrow> error + nat" where
  "ParseUint_loop n [] = Inr n"
| "ParseUint_loop n (c # cs) =
     (case digitval c of
        None \<Rightarrow> Inl ErrSyntax
      | Some d \<Rightarrow>
          if 16 \<le> d then Inl ErrSyntax
          else if 2 ^ 64 \<le> n * 16 + d then Inl ErrRange
          else ParseUint_loop (n * 16 + d) cs)"

definition ParseUint :: "string \<Rightarrow> error + 64 word" where
  "ParseUint s =
     (if s = [] then Inl ErrSyntax
      else case ParseUint_loop 0 s of Inl e \<Rightarrow> Inl e | Inr n \<Rightarrow> Inr (of_nat n))"

text \<open>\<open>FS.loadNode\<close>: the buckets \<open>objects\<close> and \<open>stage/objects\<close> are probed in this order.\<close>

fun loadNode_loop :: "KV \<Rightarrow> string \<Rightarrow> string list \<Rightarrow> error + bytes option" where
  "loadNode_loop kv b58hash [] = Inr None"
| "loadNode_loop kv b58hash (bucketPath # rest) =
     (case Bucket kv [bucketPath] of
        Inl e \<Rightarrow> Inl e
      | Inr bkt \<Rightarrow>
          (case Get kv bkt b58hash of
             Inl e \<Rightarrow> Inl e
           | Inr data \<Rightarrow> if data \<noteq> None then Inr data else loadNode_loop kv b58hash rest))"

definition loadNode :: "env \<Rightarrow> KV \<Rightarrow> Hash \<Rightarrow> error + Node" where
  "loadNode en kv hash =
     (let b58hash = B58String en hash;
          loadableBuckets = [''objects'', ''stage/objects'']
      in case loadNode_loop kv b58hash loadableBuckets of
           Inl e \<Rightarrow> Inl e
         | Inr None \<Rightarrow> Inl (ErrNoHashFound b58hash ''objects and stage/objects'')
         | Inr (Some data) \<Rightarrow> unmarshalNode en data)"

definition NodeByHash :: "env \<Rightarrow> FS \<Rightarrow> Hash \<Rightarrow> (error + Node) \<times> FS" where
  "NodeByHash en fs hash =
     (let b58Hash = B58String en hash
      in case (case fs_index fs b58Hash of None \<Rightarrow> None | Some p \<Rightarrow> fs_root fs p) of
           Some nd \<Rightarrow> (Inr nd, fs)
         | None \<Rightarrow>
             (case loadNode en (fs_kv fs) hash of
                Inl e \<Rightarrow> (Inl e, fs)
              | Inr nd \<Rightarrow> (Inr nd, InsertWithData fs b58Hash (nodePath en nd) nd)))"

definition ResolveRef :: "env \<Rightarrow> FS \<Rightarrow> string \<Rightarrow> (error + Node) \<times> FS" where
  "ResolveRef en fs refname =
     (case Bucket (fs_kv fs) [''refs''] of
        Inl e \<Rightarrow> (Inl e, fs)
      | Inr bkt \<Rightarrow>
          (case Get (fs_kv fs) bkt (ToLower refname) of
             Inl e \<Rightarrow> (Inl e, fs)
           | Inr hash \<Rightarrow>
               (case Cast en (nilable hash) of
                  Inl e \<Rightarrow> (Inl e, fs)
                | Inr mh \<Rightarrow> NodeByHash en fs mh)))"

definition SaveRef :: "FS \<Rightarrow> string \<Rightarrow> Node \<Rightarrow> error option \<times> FS" where
  "SaveRef fs refname nd =
     (case Bucket (fs_kv fs) [''refs''] of
        Inl e \<Rightarrow> (Some e, fs)
      | Inr bkt \<Rightarrow>
          (case Put (fs_kv fs) bkt (ToLower refname) (Hash nd) of
             Inl e \<Rightarrow> (Some e, fs)
           | Inr kv' \<Rightarrow> (None, fs\<lparr>fs_kv := kv'\<rparr>)))"

definition Head :: "env \<Rightarrow> FS \<Rightarrow> (error + Commit) \<times> FS" where
  "Head en fs =
     (case ResolveRef en fs ''HEAD'' of
        (Inl e, fs') \<Rightarrow> (Inl e, fs')
      | (Inr nd, fs') \<Rightarrow>
          (case nd of
             CommitNode cmt \<Rightarrow> (Inr cmt, fs')
           | _ \<Rightarrow> (Inl (ErrMsg ''oh-oh, HEAD is not a Commit...''), fs')))"

text \<open>
  \<open>FS.SubmitCommit\<close>. The second loop appends a link to \<open>cm.changeset\<close> for every
  key of every bucket in \<open>histList\<close>. The loop over \<open>copyList\<close> is commented out in
  the source, so \<open>copyList\<close> is built and not used.
\<close>

fun SubmitCommit_links :: "KV \<Rightarrow> string list list \<Rightarrow> Commit \<Rightarrow> error option \<times> Commit" where
  "SubmitCommit_links kv [] cm = (None, cm)"
| "SubmitCommit_links kv (histKey # rest) cm =
     (case ParseUint (histKey ! 2) of
        Inl e \<Rightarrow> (Some e, cm)
      | Inr idl \<Rightarrow>
          (case Bucket kv histKey of
             Inl e \<Rightarrow> (Some e, cm)
           | Inr histBkt \<Rightarrow>
               (case Foreach kv histBkt
                       (\<lambda>indexStr value c.
                          case ParseUint indexStr of
                            Inl e \<Rightarrow> (Some e, c)
                          | Inr idx \<Rightarrow> (None, c\<lparr>changeset := changeset c @ [(idl, idx)]\<rparr>))
                       cm of
                  (Some e, cm') \<Rightarrow> (Some e, cm')
                | (None, cm') \<Rightarrow> SubmitCommit_links kv rest cm')))"

definition SubmitCommit :: "env \<Rightarrow> FS \<Rightarrow> Commit \<Rightarrow> error option \<times> FS \<times> Commit" where
  "SubmitCommit en fs cm =
     (case Head en fs of
        (Inl e, fs1) \<Rightarrow> (Some e, fs1, cm)
      | (Inr head, fs1) \<Rightarrow>
          if c_root cm = c_root head then (Some ErrNoChange, fs1, cm)
          else
            (let copyList = [[''stage'', ''objects''], [''stage'', ''tree'']]
             in case Bucket (fs_kv fs1) [''stage'', ''checkpoints''] of
                  Inl e \<Rightarrow> (Some e, fs1, cm)
                | Inr ckBkt \<Rightarrow>
                    (case Foreach (fs_kv fs1) ckBkt
                            (\<lambda>key value histList.
                               (None, histList @ [[''stage'', ''checkpoints'', key]]))
                            [] of
                       (Some e, histList) \<Rightarrow> (Some e, fs1, cm)
                     | (None, histList) \<Rightarrow>
                         (case SubmitCommit_links (fs_kv fs1) histList cm of
                            (Some e, cm') \<Rightarrow> (Some e, fs1, cm')
                          | (None, cm') \<Rightarrow>
                              (let copyList' = copyList @ histList
                               in case SaveRef fs1 ''HEAD'' (CommitNode cm') of
                                    (Some e, fs2) \<Rightarrow> (Some e, fs2, cm')
                                  | (None, fs2) \<Rightarrow> (None, fs2, cm'))))))"

section \<open>Staging nodes\<close>

fun Name :: "Node \<Rightarrow> string" where
  "Name (FileNode f) = f_name f"
| "Name (DirectoryNode d) = d_name d"
| "Name (CommitNode c) = []"

fun parentHash :: "Node \<Rightarrow> Hash option" where
  "parentHash (FileNode f) = f_parent f"
| "parentHash (DirectoryNode d) = d_parent d"
| "parentHash (CommitNode c) = c_parent c"

definition HasSuffix :: "string \<Rightarrow> string \<Rightarrow> bool" where
  "HasSuffix s suffix \<longleftrightarrow> length suffix \<le> length s \<and> drop (length s - length suffix) s = suffix"

definition appendDot :: "string \<Rightarrow> string" where
  "appendDot path = (if HasSuffix path ''/'' then path @ ''.'' else path @ ''/.'')"

text \<open>
  Modelled from the spec: \<open>putPath\<close> is not part of the source files. Sections 3 and
  6 describe nested buckets addressed by the elements of a path: the value is put
  under the last element of the path, in the bucket named by the elements before it.
\<close>

definition split_slash :: "string \<Rightarrow> string list" where
  "split_slash s =
     foldr (\<lambda>c acc. if c = CHR ''/'' then [] # acc else (c # hd acc) # tl acc) s [[]]"

definition putPath :: "KV \<Rightarrow> string \<Rightarrow> bytes \<Rightarrow> error + KV" where
  "putPath kv path data =
     (let elems = split_slash path
      in case Bucket kv (butlast elems) of
           Inl e \<Rightarrow> Inl e
         | Inr bkt \<Rightarrow> Put kv bkt (last elems) data)"

text \<open>
  Modelled from the spec: the method \<open>Parent\<close> of the node types is not part of the
  source files. Section 4.2 (step 5 of \<open>stageNode\<close>) says: re-resolve
  \<open>n.parentHash\<close>, re-compute its hash (its child-list changed). The parent is looked
  up by \<open>parentHash\<close> with \<open>NodeByHash\<close>; its entry for the child is set to the child's
  hash; its hash is recomputed from its serialized form (taken with the hash field
  empty). A node without \<open>parentHash\<close> is the root and has no parent.
\<close>

definition rehash :: "env \<Rightarrow> Directory \<Rightarrow> error + Directory" where
  "rehash en d =
     (case marshalNode en (DirectoryNode (d\<lparr>d_hash := []\<rparr>)) of
        Inl e \<Rightarrow> Inl e
      | Inr data \<Rightarrow> Inr (d\<lparr>d_hash := hashOf en data\<rparr>))"

definition Parent :: "env \<Rightarrow> FS \<Rightarrow> Node \<Rightarrow> (error + Node option) \<times> FS" where
  "Parent en fs nd =
     (case parentHash nd of
        None \<Rightarrow> (Inr None, fs)
      | Some ph \<Rightarrow>
          (case NodeByHash en fs ph of
             (Inl e, fs') \<Rightarrow> (Inl e, fs')
           | (Inr (DirectoryNode d), fs') \<Rightarrow>
               (case rehash en (d\<lparr>d_children := put_entry (Name nd) (Hash nd) (d_children d)\<rparr>) of
                  Inl e \<Rightarrow> (Inl e, fs')
                | Inr d' \<Rightarrow> (Inr (Some (DirectoryNode d')), fs'))
           | (Inr _, fs') \<Rightarrow> (Inl ErrBadNode, fs')))"

text \<open>
  \<open>FS.StageNode\<close>. The recursion follows the parents and need not end (a store with
  a cycle of parents): the first argument bounds the number of nested calls, and
  \<open>None\<close> means that the bound was reached. Besides the error and the file system
  the model returns the nodes it has staged, the node itself first and the root
  last; \<open>StageNode\<close> forgets them.
\<close>

fun StageNode_run :: "nat \<Rightarrow> env \<Rightarrow> FS \<Rightarrow> Node \<Rightarrow> (error option \<times> FS \<times> Node list) option" where
  "StageNode_run 0 en fs nd = None"
| "StageNode_run (Suc k) en fs nd =
     (if GetType nd = NodeTypeCommit
      then Some (Some (ErrMsg ''Please use SubmitCommit() for commits.''), fs, [])
      else
        (case Bucket (fs_kv fs) [''stage/objects''] of
           Inl e \<Rightarrow> Some (Some e, fs, [])
         | Inr bkt \<Rightarrow>
             (case marshalNode en nd of
                Inl e \<Rightarrow> Some (Some e, fs, [])
              | Inr data \<Rightarrow>
                  (let b58Hash = B58String en (Hash nd)
                   in case Put (fs_kv fs) bkt b58Hash data of
                        Inl e \<Rightarrow> Some (Some e, fs, [])
                      | Inr kv1 \<Rightarrow>
                          (let ndPath = nodePath en nd;
                               hashPath = path_Join en [''stage/tree'', ndPath];
                               hashPath' = (if GetType nd = NodeTypeDirectory
                                            then appendDot hashPath else hashPath)
                           in case putPath kv1 hashPath' (Hash nd) of
                                Inl e \<Rightarrow> Some (Some e, fs\<lparr>fs_kv := kv1\<rparr>, [])
                              | Inr kv2 \<Rightarrow>
                                  (let fs1 = InsertWithData (fs\<lparr>fs_kv := kv2\<rparr>) b58Hash ndPath nd
                                   in case Parent en fs1 nd of
                                        (Inl e, fs2) \<Rightarrow> Some (Some e, fs2, [nd])
                                      | (Inr None, fs2) \<Rightarrow> Some (None, fs2, [nd])
                                      | (Inr (Some par), fs2) \<Rightarrow>
                                          (case StageNode_run k en fs2 par of
                                             None \<Rightarrow> None
                                           | Some (err, fs3, chain) \<Rightarrow>
                                               Some (err, fs3, nd # chain))))))))"

definition StageNode :: "nat \<Rightarrow> env \<Rightarrow> FS \<Rightarrow> Node \<Rightarrow> (error option \<times> FS) option" where
  "StageNode k en fs nd =
     (case StageNode_run k en fs nd of
        None \<Rightarrow> None
      | Some (err, fs', chain) \<Rightarrow> Some (err, fs'))"

text \<open>
  What staging leaves behind. A node is stored when the bucket \<open>stage/objects\<close> holds
  its serialized form under its hash, and cached when the in-memory index maps its
  hash to its path and the trie holds the node itself at that path.
  \<open>stage_objects\<close> is the bucket after the serialized form of each node of a list
  was put under its hash, in the order of the list. A parent reflects a child when
  it is a directory whose entry for the child is the child's hash and whose own hash
  is the hash of its serialized form.
\<close>

definition stored :: "env \<Rightarrow> FS \<Rightarrow> Node \<Rightarrow> bool" where
  "stored en fs a \<longleftrightarrow>
     (case marshalNode en a of
        Inl e \<Rightarrow> False
      | Inr data \<Rightarrow>
          map_of (entries (fs_kv fs) [''stage/objects'']) (B58String en (Hash a)) = Some data)"

definition cached :: "env \<Rightarrow> FS \<Rightarrow> Node \<Rightarrow> bool" where
  "cached en fs a \<longleftrightarrow>
     fs_index fs (B58String en (Hash a)) = Some (nodePath en a) \<and>
     fs_root fs (nodePath en a) = Some a"

fun stage_objects :: "env \<Rightarrow> Node list \<Rightarrow> (string \<times> bytes) list \<Rightarrow> (string \<times> bytes) list option" where
  "stage_objects en [] es = Some es"
| "stage_objects en (a # as) es =
     (case marshalNode en a of
        Inl e \<Rightarrow> None
      | Inr data \<Rightarrow> stage_objects en as (put_entry (B58String en (Hash a)) data es))"

definition reflects :: "env \<Rightarrow> Node \<Rightarrow> Node \<Rightarrow> bool" where
  "reflects en p c \<longleftrightarrow>
     (case p of
        DirectoryNode d \<Rightarrow>
          map_of (d_children d) (Name c) = Some (Hash c) \<and>
          rehash en d = Inr d
      | _ \<Rightarrow> False)"

text \<open>
  Concrete inputs: a small serialization and hash library (one-byte hashes, the
  base58 form of a hash is its bytes as hexadecimal digits), a file system whose
  \<open>HEAD\<close> is the commit \<open>9\<close> with root \<open>5\<close> and whose stage holds a directory, a tree
  entry and a checkpoint, a commit with another root, and a file system that holds
  the root directory \<open>5\<close> with a new file below it.
\<close>

definition env_toy :: env where
  "env_toy =
     \<lparr>B58String = map (\<lambda>b. hexdigit (unat b mod 16)),
      Cast = (\<lambda>b. if b = [] then Inl (ErrMsg ''multihash too short'') else Inr b),
      marshalNode = (\<lambda>nd. Inr (case nd of
                                FileNode f \<Rightarrow> 1 # f_hash f
                              | DirectoryNode d \<Rightarrow> 2 # d_hash d @ concat (map snd (d_children d))
                              | CommitNode c \<Rightarrow> 3 # c_hash c @ c_root c)),
      unmarshalNode = (\<lambda>b. case b of
                             [t, h] \<Rightarrow>
                               if t = 2
                               then Inr (DirectoryNode \<lparr>d_id = 1, d_name = [], d_size = 0,
                                          d_hash = [h], d_parent = None, d_children = []\<rparr>)
                               else Inl ErrBadNode
                           | [t, h, r] \<Rightarrow>
                               if t = 3
                               then Inr (CommitNode \<lparr>c_id = 0, c_author = [], c_message = [],
                                          c_hash = [h], c_root = [r], c_parent = None,
                                          changeset = []\<rparr>)
                               else Inl ErrBadNode
                           | _ \<Rightarrow> Inl ErrBadNode),
      nodePath = (\<lambda>nd. case nd of
                          FileNode f \<Rightarrow> f_name f
                        | DirectoryNode d \<Rightarrow> d_name d
                        | CommitNode c \<Rightarrow> ''.commit''),
      path_Join = (\<lambda>es. foldr (\<lambda>a b. if b = [] then a else a @ CHR ''/'' # b) es []),
      hashOf = (\<lambda>b. [sum_list b])\<rparr>"

definition fs_staged :: FS where
  "fs_staged =
     \<lparr>fs_kv =
        \<lparr>entries = (\<lambda>_. [])
           ([''refs''] := [(''head'', [9])],
            [''objects''] := [(''9'', [3, 9, 5])],
            [''stage/objects''] := [(''6'', [2, 6])],
            [''stage'', ''objects''] := [(''6'', [2, 6])],
            [''stage'', ''tree''] := [(''x'', [6])],
            [''stage'', ''checkpoints''] := [(''7'', [0])],
            [''stage'', ''checkpoints'', ''7''] := [(''1'', [0])]),
         faulty = (\<lambda>_. False)\<rparr>,
      fs_root = (\<lambda>_. None),
      fs_index = (\<lambda>_. None)\<rparr>"

definition cm_new :: Commit where
  "cm_new = \<lparr>c_id = 2, c_author = ''u'', c_message = ''first'', c_hash = [7], c_root = [6],
             c_parent = Some [9], changeset = []\<rparr>"

definition fs_tree :: FS where
  "fs_tree =
     \<lparr>fs_kv =
        \<lparr>entries = (\<lambda>_. [])([''objects''] := [(''5'', [2, 5])]),
         faulty = (\<lambda>_. False)\<rparr>,
      fs_root = (\<lambda>_. None),
      fs_index = (\<lambda>_. None)\<rparr>"

definition file_x :: File where
  "file_x = \<lparr>f_id = 2, f_name = ''x.txt'', f_size = 5, f_hash = [6], f_content = [17],
             f_parent = Some [5]\<rparr>"

definition dir_restaged :: Directory where
  "dir_restaged = \<lparr>d_id = 1, d_name = [], d_size = 0, d_hash = [8], d_parent = None,
                   d_children = [(''x.txt'', [6])]\<rparr>"

section \<open>Properties of the store and of the integer encoding\<close>

lemma map_of_put_entry:
  "map_of (put_entry k v es) k' = (if k' = k then Some v else map_of es k')"
  by (induction es) auto

lemma byte_step:
  "push_bit 8 (drop_bit 8 w) OR ucast (ucast w :: 8 word) = (w :: 64 word)"
  by (rule bit_word_eqI) (auto simp: bit_simps)

lemma byte_step_drop:
  "push_bit 8 (drop_bit (8 + n) v) OR ucast (ucast (drop_bit n v) :: 8 word) = drop_bit n (v :: 64 word)"
  using byte_step [of "drop_bit n v"] by (simp add: add.commute)

lemma drop_bit_64: "drop_bit 64 (v :: 64 word) = 0"
  by (rule bit_word_eqI) (auto simp: bit_simps dest: bit_imp_le_length)

lemma Uint64_PutUint64: "Uint64 (PutUint64 v) = Inr v"
proof -
  have top: "push_bit 8 0 OR ucast (ucast (drop_bit 56 v) :: 8 word) = drop_bit 56 v"
    using byte_step_drop [of 56 v] by (simp add: drop_bit_64)
  show ?thesis
    unfolding Uint64_def PutUint64_def
    using byte_step_drop [of 48 v] byte_step_drop [of 40 v] byte_step_drop [of 32 v]
      byte_step_drop [of 24 v] byte_step_drop [of 16 v] byte_step_drop [of 8 v]
      byte_step_drop [of 0 v] top
    by simp
qed

section \<open>The node counter\<close>

lemma NextID_step:
  assumes "stats_ok kv" "counter kv = Inr c"
  shows "fst (NextID kv) = Inr (c + 1) \<and> stats_ok (snd (NextID kv)) \<and>
         counter (snd (NextID kv)) = Inr (c + 1)"
  using assms
  by (auto simp: NextID_def stats_ok_def counter_def Bucket_def Get_def Put_def
      map_of_put_entry Uint64_PutUint64 split: option.splits sum.splits)

lemma NextID_calls_ids:
  assumes "stats_ok kv" "counter kv = Inr c"
  shows "fst (NextID_calls n kv) = map (\<lambda>i. Inr (c + of_nat i)) [1..<Suc n] \<and>
         stats_ok (snd (NextID_calls n kv)) \<and>
         counter (snd (NextID_calls n kv)) = Inr (c + of_nat n)"
  using assms
proof (induction n arbitrary: kv c)
  case 0
  then show ?case by simp
next
  case (Suc n)
  obtain r kv1 where r: "NextID kv = (r, kv1)" by (cases "NextID kv")
  with NextID_step [OF Suc.prems]
  have k: "r = Inr (c + 1)" "stats_ok kv1" "counter kv1 = Inr (c + 1)"
    by simp_all
  obtain rs kv2 where rs: "NextID_calls n kv1 = (rs, kv2)" by (cases "NextID_calls n kv1")
  from Suc.IH [OF k(2,3)] rs
  have ih: "rs = map (\<lambda>i. Inr (c + 1 + of_nat i)) [1..<Suc n]"
    "stats_ok kv2" "counter kv2 = Inr (c + 1 + of_nat n)" by simp_all
  have "map (\<lambda>i. Inr (c + of_nat i) :: error + 64 word) [1..<Suc (Suc n)] =
        Inr (c + 1) # map (\<lambda>i. Inr (c + 1 + of_nat i)) [1..<Suc n]"
    by (simp add: upt_conv_Cons map_Suc_upt [symmetric] add.assoc del: upt_Suc)
  then show ?case using r rs k ih by (simp add: add.assoc del: upt_Suc)
qed

lemma ids_below_wrap:
  assumes "unat (c :: 64 word) + n < 2 ^ 64" "i \<le> n"
  shows "unat (c + of_nat i) = unat c + i"
  using assms by (simp add: unat_word_ariths unat_of_nat)

lemma sorted_ids:
  assumes "unat (c :: 64 word) + n < 2 ^ 64"
  shows "sorted_wrt (<) (map (\<lambda>i. c + of_nat i) [1..<Suc n])"
proof -
  have h: "\<And>i j. i < j \<Longrightarrow> j \<le> n \<Longrightarrow> c + of_nat i < c + of_nat j"
  proof -
    fix i j :: nat assume ij: "i < j" "j \<le> n"
    have "unat (c + of_nat i) = unat c + i" "unat (c + of_nat j) = unat c + j"
      using assms ij by (simp_all add: ids_below_wrap)
    then show "c + of_nat i < c + of_nat j" using ij by (simp add: word_less_nat_alt)
  qed
  have h2: "\<And>i j. i < j \<Longrightarrow> j < n \<Longrightarrow> c + (1 + of_nat i) < c + (1 + of_nat j)"
    using h [of "Suc _" "Suc _"] by simp
  then show ?thesis
    by (auto simp: sorted_wrt_map sorted_wrt_iff_nth_less simp del: upt_Suc)
qed

text \<open>
  C3 (as amended). While the persisted counter stays below \<open>2^64 - 1\<close> and the store
  reports no error on \<open>stats/node-count\<close>, \<open>n\<close> successive calls of \<open>NextID\<close> starting
  from a counter \<open>c\<close> return \<open>c + 1, \<dots>, c + n\<close>: each value is strictly greater than
  all values returned before it, and the persisted counter ends at \<open>c + n\<close>, not below
  where it started. The property depends on the store only, so it survives a restart
  with the same store.
\<close>

theorem NextID_strictly_monotone_below_wrap:
  assumes "stats_ok kv" and "counter kv = Inr c" and "unat c + n < 2 ^ 64"
  shows "fst (NextID_calls n kv) = map (\<lambda>i. Inr (c + of_nat i)) [1..<Suc n] \<and>
         sorted_wrt (<) (c # map (\<lambda>i. c + of_nat i) [1..<Suc n]) \<and>
         counter (snd (NextID_calls n kv)) = Inr (c + of_nat n) \<and>
         c \<le> c + of_nat n"
proof -
  have lt: "c < c + of_nat i" if "1 \<le> i" "i \<le> n" for i
    using ids_below_wrap [OF assms(3) that(2)] that(1) by (simp add: word_less_nat_alt)
  have le: "c \<le> c + of_nat n"
    using ids_below_wrap [OF assms(3), of n] by (simp add: word_le_nat_alt)
  show ?thesis
    using NextID_calls_ids [OF assms(1,2), of n] sorted_ids [OF assms(3)] lt le
    by (auto simp del: upt_Suc)
qed

theorem NextID_strictly_monotone_witness:
  "stats_ok kv_empty \<and> counter kv_empty = Inr 0 \<and> unat (0 :: 64 word) + 3 < 2 ^ 64 \<and>
   fst (NextID_calls 3 kv_empty) = [Inr 1, Inr 2, Inr 3]"
  using NextID_strictly_monotone_below_wrap [of kv_empty 0 3]
  by (simp add: stats_ok_def counter_def kv_empty_def upt_conv_Cons)

text \<open>
  C3 as stated fails where the 64-bit counter wraps: from a persisted counter of
  \<open>2^64 - 2\<close> the first call returns \<open>2^64 - 1\<close>, the second returns 0, and the
  persisted counter drops to 0.
\<close>

theorem NextID_wraps_counterexample:
  "fst (NextID_calls 2 kv_near_wrap) = [Inr 18446744073709551615, Inr 0] \<and>
   \<not> (18446744073709551615 :: 64 word) < 0 \<and>
   counter kv_near_wrap = Inr 18446744073709551614 \<and>
   counter (snd (NextID_calls 2 kv_near_wrap)) = Inr 0"
  by code_simp

text \<open>
  C10. When the store accepts the bucket lookup and the read of the counter (and the
  stored counter is readable) but refuses the \<open>Put\<close> of the new counter, \<open>NextID\<close>
  returns the id 0 with no error and leaves the store as it was.
\<close>

theorem NextID_put_error_not_propagated:
  assumes "\<not> faulty kv (OpBucket [''stats''])"
    and "\<not> faulty kv (OpGet [''stats''] ''node-count'')"
    and "counter kv = Inr c"
    and "faulty kv (OpPut [''stats''] ''node-count'')"
  shows "NextID kv = (Inr 0, kv)"
  using assms
  by (auto simp: NextID_def counter_def Bucket_def Get_def Put_def split: option.splits sum.splits)

theorem NextID_put_error_witness:
  "\<not> faulty kv_put_fails (OpBucket [''stats'']) \<and>
   \<not> faulty kv_put_fails (OpGet [''stats''] ''node-count'') \<and>
   counter kv_put_fails = Inr 0 \<and>
   faulty kv_put_fails (OpPut [''stats''] ''node-count'') \<and>
   NextID kv_put_fails = (Inr 0, kv_put_fails)"
  using NextID_put_error_not_propagated [of kv_put_fails 0]
  by (simp add: counter_def kv_put_fails_def)

section \<open>Checkpoints\<close>

text \<open>
  C4. Staging the checkpoints \<open>(7, 1)\<close> and \<open>(7, 2)\<close> on an empty store: both calls
  succeed, the bucket \<open>stage/checkpoints\<close> holds the single key \<open>7\<close> with the second
  checkpoint, and nothing is stored under \<open>stage/checkpoints/7\<close>.
\<close>

theorem StageCheckpoint_same_idLink_overwrites:
  "(case StageCheckpoint wire_toy kv_empty (ckp 7 1) of (e1, kv1) \<Rightarrow>
      (case StageCheckpoint wire_toy kv1 (ckp 7 2) of (e2, kv2) \<Rightarrow>
         e1 = None \<and> e2 = None \<and>
         entries kv2 [''stage'', ''checkpoints''] = [(''7'', PutUint64 7 @ PutUint64 2)] \<and>
         entries kv2 [''stage'', ''checkpoints'', ''7''] = []))"
  by code_simp

text \<open>
  C5. With no entry under \<open>checkpoints/7\<close> and one checkpoint under
  \<open>stage/checkpoints/7\<close>, \<open>LastCheckpoint\<close> returns whatever unmarshalling the empty
  slice gives: the staged checkpoint is not read and the error
  \<open>No last checkpoint\<close> is not produced.
\<close>

theorem LastCheckpoint_ignores_stage:
  "LastCheckpoint w kv_stage_only 7 = unmarshalCheckpoint w []"
  by (simp add: LastCheckpoint_def Bucket_def Last_def nilable_def kv_stage_only_def
      FormatUint_def FormatUint16.simps hexdigit_def split: sum.splits)

lemma foreach_unmarshal:
  assumes "map (\<lambda>(k, v). unmarshalCheckpoint w v) es = map Inr cs"
  shows "foreach_entries
           (\<lambda>key value h. case unmarshalCheckpoint w value of
                              Inl e \<Rightarrow> (Some e, h) | Inr c \<Rightarrow> (None, h @ [c])) es h0 =
         (None, h0 @ cs)"
  using assms
proof (induction es arbitrary: h0 cs)
  case Nil
  then show ?case by simp
next
  case (Cons e es)
  obtain k v where e: "e = (k, v)" by (cases e)
  from Cons.prems e obtain c cs' where cs: "cs = c # cs'" "unmarshalCheckpoint w v = Inr c"
    "map (\<lambda>(k, v). unmarshalCheckpoint w v) es = map Inr cs'"
    by (cases cs) auto
  show ?case using Cons.IH [OF cs(3), of "h0 @ [c]"] cs(1,2) e by simp
qed

lemma map_append_Inr:
  assumes "map f (xs @ ys) = map Inr cs"
  shows "map f xs = map Inr (take (length xs) cs) \<and> map f ys = map Inr (drop (length xs) cs)"
proof -
  have "map f xs = take (length xs) (map f (xs @ ys))" by simp
  also have "\<dots> = map Inr (take (length xs) cs)" unfolding assms by (simp only: take_map)
  finally have 1: "map f xs = map Inr (take (length xs) cs)" .
  have "map f ys = drop (length xs) (map f (xs @ ys))" by simp
  also have "\<dots> = map Inr (drop (length xs) cs)" unfolding assms by (simp only: drop_map)
  finally show ?thesis using 1 by simp
qed

lemma History_value:
  assumes "\<not> faulty kv (OpBucket [''checkpoints'', FormatUint idl])"
    and "\<not> faulty kv (OpForeach [''checkpoints'', FormatUint idl])"
    and "\<not> faulty kv (OpBucket [''stage'', ''checkpoints'', FormatUint idl])"
    and "\<not> faulty kv (OpForeach [''stage'', ''checkpoints'', FormatUint idl])"
    and "map (\<lambda>(k, v). unmarshalCheckpoint w v)
           (entries kv [''checkpoints'', FormatUint idl] @
            entries kv [''stage'', ''checkpoints'', FormatUint idl]) = map Inr cs"
  shows "History w kv idl = Inr (sort_key Index cs)"
proof -
  let ?e1 = "entries kv [''checkpoints'', FormatUint idl]"
  from map_append_Inr [OF assms(5)]
  have a: "map (\<lambda>(k, v). unmarshalCheckpoint w v) ?e1 = map Inr (take (length ?e1) cs)"
    and b: "map (\<lambda>(k, v). unmarshalCheckpoint w v) (entries kv [''stage'', ''checkpoints'', FormatUint idl])
        = map Inr (drop (length ?e1) cs)"
    by simp_all
  show ?thesis
    using assms(1-4)
    by (simp add: History_def Bucket_def Foreach_def foreach_unmarshal [OF a] foreach_unmarshal [OF b])
qed

text \<open>
  C6. When the store reports no error on the two buckets \<open>checkpoints/<hex>\<close> and
  \<open>stage/checkpoints/<hex>\<close> and their values unmarshal to the checkpoints \<open>cs\<close>
  (committed ones first), \<open>History\<close> returns exactly these checkpoints, in ascending
  order of \<open>Index\<close>; when there are none it returns the empty sequence and no error.
\<close>

theorem History_merged_and_sorted:
  assumes "\<not> faulty kv (OpBucket [''checkpoints'', FormatUint idl])"
    and "\<not> faulty kv (OpForeach [''checkpoints'', FormatUint idl])"
    and "\<not> faulty kv (OpBucket [''stage'', ''checkpoints'', FormatUint idl])"
    and "\<not> faulty kv (OpForeach [''stage'', ''checkpoints'', FormatUint idl])"
    and "map (\<lambda>(k, v). unmarshalCheckpoint w v)
           (entries kv [''checkpoints'', FormatUint idl] @
            entries kv [''stage'', ''checkpoints'', FormatUint idl]) = map Inr cs"
  shows "\<exists>h. History w kv idl = Inr h \<and> mset h = mset cs \<and> sorted (map Index h) \<and>
             (cs = [] \<longrightarrow> h = [])"
  using History_value [OF assms] by simp

lemma kv_history_decoded:
  "map (\<lambda>(k, v). unmarshalCheckpoint wire_toy v)
           (entries kv_history [''checkpoints'', FormatUint 7] @
            entries kv_history [''stage'', ''checkpoints'', FormatUint 7]) = map Inr [ckp 7 1, ckp 7 3, ckp 7 2]"
  by code_simp

theorem History_merged_and_sorted_witness:
  "History wire_toy kv_history 7 = Inr [ckp 7 1, ckp 7 2, ckp 7 3] \<and>
   History wire_toy kv_empty 9 = Inr []"
proof -
  have f: "\<not> faulty kv_history op" "\<not> faulty kv_empty op" for op
    by (simp_all add: kv_history_def kv_empty_def)
  have e: "map (\<lambda>(k, v). unmarshalCheckpoint wire_toy v)
           (entries kv_empty [''checkpoints'', FormatUint 9] @
            entries kv_empty [''stage'', ''checkpoints'', FormatUint 9]) = map Inr []"
    by (simp add: kv_empty_def)
  have s: "sort_key Index [ckp 7 1, ckp 7 3, ckp 7 2] = [ckp 7 1, ckp 7 2, ckp 7 3]"
    by code_simp
  from History_merged_and_sorted [OF f(1) f(1) f(1) f(1) kv_history_decoded]
  obtain h where h: "History wire_toy kv_history 7 = Inr h" "mset h = mset [ckp 7 1, ckp 7 3, ckp 7 2]"
    "sorted (map Index h)" by blast
  have "History wire_toy kv_history 7 = Inr [ckp 7 1, ckp 7 2, ckp 7 3]"
    by code_simp
  moreover from History_merged_and_sorted [OF f(2) f(2) f(2) f(2) e]
  have "History wire_toy kv_empty 9 = Inr []" by simp
  ultimately show ?thesis by simp
qed

section \<open>The compression writer\<close>

lemma flushBuffer_reliable:
  assumes "reliable f w"
  shows "flushBuffer w d = (None, flushed f w d)"
  using assms
  by (simp add: reliable_def flushBuffer_def flushed_def addRecordToIndex_def rawW_Write_def Let_def)

lemma reliable_flushed [simp]: "reliable f w \<Longrightarrow> reliable f (flushed f w d)"
  by (simp add: reliable_def flushed_def addRecordToIndex_def)

lemma chunkBuf_flushed [simp]: "chunkBuf (flushed f w d) = chunkBuf w"
  by (simp add: flushed_def addRecordToIndex_def)

lemma headerWritten_flushed [simp]: "headerWritten (flushed f w d) = headerWritten w"
  by (simp add: flushed_def addRecordToIndex_def)

lemma flushed_chunkBuf_update: "flushed f (w\<lparr>chunkBuf := c\<rparr>) d = (flushed f w d)\<lparr>chunkBuf := c\<rparr>"
  by (simp add: flushed_def addRecordToIndex_def)

lemma chunkBuf_update_same: "chunkBuf w = c \<Longrightarrow> w\<lparr>chunkBuf := c\<rparr> = w"
  by (cases w) simp

lemma flushed_Nil [simp]: "flushed f w [] = w"
  by (simp add: flushed_def)

lemma reliable_chunkBuf_update [simp]: "reliable f (w\<lparr>chunkBuf := c\<rparr>) = reliable f w"
  by (simp add: reliable_def)

lemma closing_chunkBuf_update [simp]: "closing (w\<lparr>chunkBuf := c\<rparr>) = closing w"
  by (simp add: closing_def)

lemma foldl_flushed_reliable: "reliable f w \<Longrightarrow> reliable f (foldl (flushed f) w ds)"
  by (induction ds arbitrary: w) simp_all

lemma foldl_flushed_chunkBuf [simp]: "chunkBuf (foldl (flushed f) w ds) = chunkBuf w"
  by (induction ds arbitrary: w) simp_all

lemma foldl_flushed_headerWritten [simp]: "headerWritten (foldl (flushed f) w ds) = headerWritten w"
  by (induction ds arbitrary: w) simp_all

lemma length_record_marshal: "length (record_marshal r) = 16"
  by (simp add: record_marshal_def PutUint64_def)

lemma length_trailer_marshal: "length (trailer_marshal t) = trailerSize"
  by (simp add: trailer_marshal_def PutUint16_def PutUint32_def PutUint64_def trailerSize_def)

lemma length_index_buf: "length (concat (map record_marshal rs)) = indexChunkSize * length rs"
  by (induction rs) (simp_all add: length_record_marshal indexChunkSize_def)

lemma ReadFrom_loop_full:
  assumes "reliable f w" and "\<forall>d \<in> set ds. length d \<le> maxChunkSize"
    and "length l \<le> maxChunkSize" and "e = None \<or> e = Some EOF"
  shows "ReadFrom_loop w (map (\<lambda>d. (d, None)) ds @ [(l, e)]) rd =
           ((rd + length (concat ds) + length l, None), foldl (flushed f) w (ds @ [l]), [])"
  using assms
proof (induction ds arbitrary: w rd)
  case Nil
  have last: "ReadFrom_loop w' [] rd' = ((rd', None), w', [])" for w' rd'
    by (subst ReadFrom_loop.simps) (simp add: flushBuffer_def)
  show ?case
    using Nil
    by (subst ReadFrom_loop.simps) (auto simp: flushBuffer_reliable last)
next
  case (Cons d ds)
  have "ReadFrom_loop w (map (\<lambda>d. (d, None)) (d # ds) @ [(l, e)]) rd =
        ReadFrom_loop (flushed f w d) (map (\<lambda>d. (d, None)) ds @ [(l, e)]) (rd + length d)"
    using Cons.prems
    by (subst ReadFrom_loop.simps) (simp add: flushBuffer_reliable)
  also have "\<dots> = ((rd + length d + length (concat ds) + length l, None),
                   foldl (flushed f) (flushed f w d) (ds @ [l]), [])"
    using Cons.prems by (intro Cons.IH) simp_all
  finally show ?case by (simp add: add.assoc)
qed

lemma Write_loop_full:
  assumes "reliable f w" and "chunkBuf w = []" and "\<forall>d \<in> set ds. length d = maxChunkSize"
    and "length l \<le> maxChunkSize"
  shows "Write_loop w (concat ds @ l) =
           (None, if length l < maxChunkSize then (foldl (flushed f) w ds)\<lparr>chunkBuf := l\<rparr>
                  else foldl (flushed f) w (ds @ [l]))"
  using assms
proof (induction ds arbitrary: w)
  case Nil
  have pos: "0 < maxChunkSize" by (simp add: maxChunkSize_def)
  have empty: "Write_loop w' [] = (None, w')" if "chunkBuf w' = []" for w'
    using that pos by (subst Write_loop.simps) simp
  show ?case
  proof (cases "length l < maxChunkSize")
    case True
    then show ?thesis using Nil by (subst Write_loop.simps) (simp add: Let_def)
  next
    case False
    with Nil have len: "length l = maxChunkSize" by simp
    have "Write_loop w l = Write_loop (flushed f w l) []"
      using Nil len
      by (subst Write_loop.simps)
         (simp add: Let_def flushBuffer_reliable flushed_chunkBuf_update chunkBuf_update_same)
    also have "\<dots> = (None, flushed f w l)"
      using Nil by (intro empty) simp
    finally show ?thesis using False by simp
  qed
next
  case (Cons d ds)
  then have len: "length d = maxChunkSize" by simp
  have "Write_loop w (concat (d # ds) @ l) = Write_loop (flushed f w d) (concat ds @ l)"
    using Cons.prems len
    by (subst Write_loop.simps)
       (simp add: Let_def flushBuffer_reliable flushed_chunkBuf_update min_def chunkBuf_update_same)
  also have "\<dots> = (None, if length l < maxChunkSize
                           then (foldl (flushed f) (flushed f w d) ds)\<lparr>chunkBuf := l\<rparr>
                           else foldl (flushed f) (flushed f w d) (ds @ [l]))"
    using Cons.prems by (intro Cons.IH) simp_all
  finally show ?case by simp
qed

lemma Close_reliable:
  assumes "reliable f w" and "headerWritten w"
  shows "fst (Close cd w) = None \<and>
         written (rawW (snd (Close cd w))) =
           written (rawW (flushed f w (chunkBuf w))) @ closing (flushed f w (chunkBuf w))"
proof -
  let ?w2 = "flushed f w (chunkBuf w)"
  have r2: "budget (rawW ?w2) = None"
    using reliable_flushed [OF assms(1), of "chunkBuf w"] by (simp add: reliable_def)
  show ?thesis
    using assms(2) r2
    by (simp add: Close_def writeHeaderIfNeeded_def flushBuffer_reliable [OF assms(1)]
        addRecordToIndex_def Let_def rawW_Write_def length_index_buf closing_def distrib_left
        del: map_append)
qed

lemmas writer_defs = out_Write_def out_ReadFrom_def NewWriter_def Write_def ReadFrom_def Close_def
  writeHeaderIfNeeded_def flushBuffer_def addRecordToIndex_def rawW_Write_def
  Write_loop.simps ReadFrom_loop.simps codec_toy_def sink_def
  maxChunkSize_def headerSize_def indexChunkSize_def Let_def
  record_marshal_def trailer_marshal_def PutUint16_def PutUint32_def PutUint64_def

text \<open>
  C8. A writer created by \<open>NewWriter\<close> (the algorithm type is known) on a stream that
  accepts every write, closed without any \<open>Write\<close>: \<open>Close\<close> succeeds and the stream
  received exactly the header, then one index record (the sentinel, at raw offset 0
  and compressed offset \<open>headerSize\<close>), then the trailer with an index size of one
  record; no chunk bytes lie between header and index.
\<close>

theorem Close_without_Write:
  assumes "AlgorithmFromType cd t = Inr a" and "budget rw = None"
  shows "\<exists>w w'. NewWriter cd rw t = Inr w \<and> Close cd w = (None, w') \<and>
           index w' = [(0, of_nat headerSize)] \<and>
           written (rawW w') =
             written rw @ makeHeader cd t @ record_marshal (0, of_nat headerSize) @
             trailer_marshal \<lparr>tr_algoType = 0, chunksize = 0, indexSize = of_nat indexChunkSize\<rparr>"
  using assms
  by (simp add: NewWriter_def Close_def writeHeaderIfNeeded_def flushBuffer_def
      addRecordToIndex_def rawW_Write_def Let_def length_record_marshal indexChunkSize_def)

theorem Close_without_Write_witness:
  "AlgorithmFromType codec_toy 0 = Inr (\<lambda>d. Inr d) \<and> budget sink = None \<and>
   (\<exists>w w'. NewWriter codec_toy sink 0 = Inr w \<and> Close codec_toy w = (None, w') \<and>
      index w' = [(0, 8)] \<and>
      written (rawW w') =
        [1, 2, 3, 4, 0, 0, 0, 1] @
        [0, 0, 0, 0, 0, 0, 0, 0, 0, 0, 0, 0, 0, 0, 0, 8] @
        [0, 0, 0, 0, 0, 0, 0, 0, 0, 0, 0, 0, 0, 16])"
proof -
  have a: "AlgorithmFromType codec_toy 0 = Inr (\<lambda>d. Inr d)" and b: "budget sink = None"
    by (simp_all add: codec_toy_def sink_def)
  from Close_without_Write [OF a b] show ?thesis
    using a b
    by (simp add: codec_toy_def sink_def headerSize_def indexChunkSize_def record_marshal_def
        trailer_marshal_def PutUint16_def PutUint32_def PutUint64_def)
qed

text \<open>
  C7 as stated fails for short reads: a reader that delivers two bytes in two reads
  of one byte makes \<open>ReadFrom\<close> emit two chunks (three index records), while \<open>Write\<close>
  of the same two bytes emits one chunk (two index records).
\<close>

theorem ReadFrom_short_reads_counterexample:
  "out_ReadFrom codec_toy sink 0 [([1], None), ([2], None)] \<noteq> out_Write codec_toy sink 0 [1, 2] \<and>
   (\<exists>a. out_ReadFrom codec_toy sink 0 [([1], None), ([2], None)] = Inr a) \<and>
   (\<exists>b. out_Write codec_toy sink 0 [1, 2] = Inr b)"
  by (simp add: writer_defs)

text \<open>
  C7 (as amended). With an algorithm and an underlying stream that do not fail, if
  every read except the last one fills the whole buffer of \<open>maxChunkSize\<close> bytes (the
  last one delivers at most that, with or without \<open>io.EOF\<close>), then \<open>ReadFrom\<close>
  followed by \<open>Close\<close> succeeds and produces byte for byte the stream that \<open>Write\<close> of
  the same bytes followed by \<open>Close\<close> produces.
\<close>

theorem ReadFrom_matches_Write_on_full_reads:
  assumes alg: "AlgorithmFromType cd t = Inr (\<lambda>d. Inr (f d))"
    and rw: "budget rw = None"
    and full: "\<forall>d \<in> set ds. length d = maxChunkSize"
    and l: "length l \<le> maxChunkSize"
    and e: "e = None \<or> e = Some EOF"
  shows "out_ReadFrom cd rw t (map (\<lambda>d. (d, None)) ds @ [(l, e)]) = out_Write cd rw t (concat ds @ l) \<and>
         (\<exists>out. out_Write cd rw t (concat ds @ l) = Inr out)"
proof -
  define w0 where "w0 =
    \<lparr>rawW = rw, chunkBuf = [], index = [], rawOff = 0, zipOff = 0,
     trailer = \<lparr>tr_algoType = 0, chunksize = 0, indexSize = 0\<rparr>,
     algo = (\<lambda>d. Inr (f d)), algoType = t, headerWritten = False\<rparr>"
  define wh where "wh = snd (writeHeaderIfNeeded cd w0)"
  have nw: "NewWriter cd rw t = Inr w0"
    by (simp add: NewWriter_def alg w0_def)
  have hd: "writeHeaderIfNeeded cd w0 = (None, wh)"
    by (simp add: wh_def writeHeaderIfNeeded_def w0_def rawW_Write_def rw)
  have rel: "reliable f wh" "chunkBuf wh = []" "headerWritten wh"
    by (simp_all add: wh_def writeHeaderIfNeeded_def reliable_def w0_def rawW_Write_def rw)
  define wR where "wR = foldl (flushed f) wh (ds @ [l])"
  have relR: "reliable f wR" "chunkBuf wR = []" "headerWritten wR"
    unfolding wR_def using rel by (simp_all add: foldl_flushed_reliable del: foldl_append)
  have le: "\<forall>d \<in> set ds. length d \<le> maxChunkSize" using full by simp
  have R: "ReadFrom cd w0 (map (\<lambda>d. (d, None)) ds @ [(l, e)]) =
             ((length (concat ds) + length l, None), wR, [])"
    using ReadFrom_loop_full [OF rel(1) le l e, of 0] by (simp add: ReadFrom_def hd wR_def)
  obtain eR cwR where cR: "Close cd wR = (eR, cwR)" by (cases "Close cd wR")
  with Close_reliable [OF relR(1,3), of cd] relR(2)
  have cR': "eR = None" "written (rawW cwR) = written (rawW wR) @ closing wR" by simp_all
  have outR: "out_ReadFrom cd rw t (map (\<lambda>d. (d, None)) ds @ [(l, e)]) =
                Inr (written (rawW wR) @ closing wR)"
    by (simp add: out_ReadFrom_def nw R cR cR')
  define wW where "wW = (if length l < maxChunkSize then (foldl (flushed f) wh ds)\<lparr>chunkBuf := l\<rparr> else wR)"
  have W: "Write cd w0 (concat ds @ l) = ((length (concat ds @ l), None), wW)"
    using Write_loop_full [OF rel(1,2) full l] by (simp add: Write_def hd wW_def wR_def)
  have fl: "flushed f wW (chunkBuf wW) = wR\<lparr>chunkBuf := chunkBuf wW\<rparr>"
  proof (cases "length l < maxChunkSize")
    case True
    then show ?thesis by (simp add: wW_def wR_def flushed_chunkBuf_update)
  next
    case False
    then show ?thesis using relR(2) by (simp add: wW_def chunkBuf_update_same)
  qed
  have relW: "reliable f wW" "headerWritten wW"
    using rel relR by (simp_all add: wW_def foldl_flushed_reliable)
  obtain eW cwW where cW: "Close cd wW = (eW, cwW)" by (cases "Close cd wW")
  with Close_reliable [OF relW, of cd]
  have cW': "eW = None" "written (rawW cwW) = written (rawW wR) @ closing wR"
    by (simp_all add: fl)
  have outW: "out_Write cd rw t (concat ds @ l) = Inr (written (rawW wR) @ closing wR)"
    by (simp add: out_Write_def nw W cW cW')
  show ?thesis using outR outW by simp
qed

theorem ReadFrom_matches_Write_witness:
  "out_ReadFrom codec_toy sink 7 [(replicate maxChunkSize 0, None), ([1, 2, 3], Some EOF)] =
   out_Write codec_toy sink 7 (replicate maxChunkSize 0 @ [1, 2, 3]) \<and>
   (\<exists>out. out_Write codec_toy sink 7 (replicate maxChunkSize 0 @ [1, 2, 3]) = Inr out)"
proof -
  have a: "AlgorithmFromType codec_toy 7 = Inr (\<lambda>d. Inr (id d))" and b: "budget sink = None"
    by (simp_all add: codec_toy_def sink_def)
  have c: "\<forall>d \<in> set [replicate maxChunkSize (0 :: 8 word)]. length d = maxChunkSize" by simp
  have d: "length [1, 2, 3 :: 8 word] \<le> maxChunkSize" by (simp add: maxChunkSize_def)
  from ReadFrom_matches_Write_on_full_reads [OF a b c d, of "Some EOF"]
  show ?thesis by simp
qed

section \<open>Submitting a commit\<close>

lemma NodeByHash_kv: "fs_kv (snd (NodeByHash en fs h)) = fs_kv fs"
  by (simp add: NodeByHash_def InsertWithData_def Let_def split: option.splits sum.splits)

lemma ResolveRef_kv: "fs_kv (snd (ResolveRef en fs r)) = fs_kv fs"
  by (simp add: ResolveRef_def NodeByHash_kv split: sum.splits)

lemma Head_kv: "fs_kv (snd (Head en fs)) = fs_kv fs"
proof -
  obtain r fs' where r: "ResolveRef en fs ''HEAD'' = (r, fs')" by (cases "ResolveRef en fs ''HEAD''")
  with ResolveRef_kv [of en fs "''HEAD''"] have "fs_kv fs' = fs_kv fs" by simp
  then show ?thesis by (simp add: Head_def r split: sum.splits Node.splits)
qed

lemma SaveRef_kv:
  assumes "SaveRef fs r nd = (None, fs2)"
  shows "entries (fs_kv fs2) =
           (entries (fs_kv fs))([''refs''] := put_entry (ToLower r) (Hash nd) (entries (fs_kv fs) [''refs'']))"
  using assms
  by (auto simp: SaveRef_def Bucket_def Put_def split: sum.splits if_splits)

lemma SubmitCommit_kv:
  assumes "SubmitCommit en fs cm = (None, fs', cm')"
  shows "entries (fs_kv fs') =
           (entries (fs_kv fs))([''refs''] := put_entry ''head'' (c_hash cm') (entries (fs_kv fs) [''refs'']))"
proof -
  obtain h fs1 where h: "Head en fs = (h, fs1)" by (cases "Head en fs")
  with Head_kv [of en fs] have kv1: "fs_kv fs1 = fs_kv fs" by simp
  from assms h obtain fs2 where "SaveRef fs1 ''HEAD'' (CommitNode cm') = (None, fs2)" "fs' = fs2"
    by (auto simp: SubmitCommit_def Let_def split: sum.splits if_splits prod.splits option.splits)
  with SaveRef_kv [of fs1 "''HEAD''" "CommitNode cm'" fs2] kv1 show ?thesis
    by (simp add: ToLower_def)
qed

text \<open>
  C9. When \<open>SubmitCommit\<close> returns without error, every bucket other than \<open>refs\<close>
  (so \<open>objects\<close>, \<open>tree\<close>, \<open>checkpoints\<close> and the three stage namespaces) holds exactly
  the entries it held before, every key of \<open>refs\<close> other than \<open>head\<close> keeps its value,
  and \<open>refs/head\<close> is the hash of the commit.
\<close>

theorem SubmitCommit_only_writes_HEAD:
  assumes "SubmitCommit en fs cm = (None, fs', cm')"
  shows "(\<forall>p. p \<noteq> [''refs''] \<longrightarrow> entries (fs_kv fs') p = entries (fs_kv fs) p) \<and>
         (\<forall>k. k \<noteq> ''head'' \<longrightarrow>
              map_of (entries (fs_kv fs') [''refs'']) k = map_of (entries (fs_kv fs) [''refs'']) k) \<and>
         map_of (entries (fs_kv fs') [''refs'']) ''head'' = Some (c_hash cm')"
  using SubmitCommit_kv [OF assms] by (simp add: map_of_put_entry)

lemma SubmitCommit_staged:
  "SubmitCommit env_toy fs_staged cm_new =
     (None,
      fs_staged\<lparr>fs_kv := (fs_kv fs_staged)\<lparr>entries := (entries (fs_kv fs_staged))([''refs''] := [(''head'', [7])])\<rparr>,
                fs_root := (fs_root fs_staged)(''.commit'' \<mapsto> CommitNode \<lparr>c_id = 0, c_author = [], c_message = [],
                                          c_hash = [9], c_root = [5], c_parent = None,
                                          changeset = []\<rparr>),
                fs_index := (fs_index fs_staged)(''9'' \<mapsto> ''.commit'')\<rparr>,
      cm_new\<lparr>changeset := [(7, 1)]\<rparr>)"
  by (simp add: SubmitCommit_def Head_def ResolveRef_def NodeByHash_def loadNode_def
      InsertWithData_def SaveRef_def Bucket_def Get_def Put_def Foreach_def Let_def
      ToLower_def nilable_def ParseUint_def digitval_def hexdigit_def
      env_toy_def fs_staged_def cm_new_def)

theorem SubmitCommit_only_writes_HEAD_witness:
  "\<exists>fs' cm'. SubmitCommit env_toy fs_staged cm_new = (None, fs', cm') \<and>
     entries (fs_kv fs') [''objects''] = entries (fs_kv fs_staged) [''objects''] \<and>
     entries (fs_kv fs') [''stage/objects''] = entries (fs_kv fs_staged) [''stage/objects''] \<and>
     entries (fs_kv fs') [''stage'', ''checkpoints'', ''7''] =
       entries (fs_kv fs_staged) [''stage'', ''checkpoints'', ''7''] \<and>
     map_of (entries (fs_kv fs') [''refs'']) ''head'' = Some [7]"
proof -
  from SubmitCommit_only_writes_HEAD [OF SubmitCommit_staged]
  show ?thesis
    unfolding SubmitCommit_staged by (simp add: cm_new_def)
qed

text \<open>
  C1. On a file system whose stage holds a directory object, a tree entry and a
  checkpoint, \<open>SubmitCommit\<close> of a commit with a new root succeeds, and afterwards
  \<open>objects\<close>, \<open>tree\<close> and \<open>checkpoints\<close> still lack the staged entries while the stage
  namespaces still hold them: nothing is copied and nothing is cleared.
\<close>

theorem SubmitCommit_leaves_stage_in_place:
  "(case SubmitCommit env_toy fs_staged cm_new of
      (err, fs', cm') \<Rightarrow>
        err = None \<and>
        map_of (entries (fs_kv fs') [''objects'']) ''6'' = None \<and>
        entries (fs_kv fs') [''tree''] = [] \<and>
        entries (fs_kv fs') [''checkpoints'', ''7''] = [] \<and>
        entries (fs_kv fs') [''stage/objects''] = [(''6'', [2, 6])] \<and>
        entries (fs_kv fs') [''stage'', ''objects''] = [(''6'', [2, 6])] \<and>
        entries (fs_kv fs') [''stage'', ''tree''] = [(''x'', [6])] \<and>
        entries (fs_kv fs') [''stage'', ''checkpoints'', ''7''] = [(''1'', [0])])"
  unfolding SubmitCommit_staged by (simp add: fs_staged_def)

section \<open>Staging nodes\<close>

lemma NodeByHash_index_mono:
  "fs_index fs x \<noteq> None \<Longrightarrow> fs_index (snd (NodeByHash en fs h)) x \<noteq> None"
  by (simp add: NodeByHash_def InsertWithData_def Let_def split: option.splits sum.splits)

lemma Parent_frame:
  assumes "Parent en fs nd = (r, fs')"
  shows "fs_kv fs' = fs_kv fs \<and> (\<forall>x. fs_index fs x \<noteq> None \<longrightarrow> fs_index fs' x \<noteq> None)"
proof (cases "parentHash nd")
  case None
  with assms show ?thesis by (simp add: Parent_def)
next
  case (Some ph)
  obtain q fs1 where q: "NodeByHash en fs ph = (q, fs1)" by (cases "NodeByHash en fs ph")
  with NodeByHash_kv [of en fs ph] NodeByHash_index_mono [of fs _ en ph]
  have "fs_kv fs1 = fs_kv fs" "\<forall>x. fs_index fs x \<noteq> None \<longrightarrow> fs_index fs1 x \<noteq> None" by auto
  moreover from assms Some q have "fs' = fs1"
    by (auto simp: Parent_def split: sum.splits Node.splits)
  ultimately show ?thesis by simp
qed

lemma rehash_reflects:
  assumes "rehash en d = Inr d'"
  shows "d_children d' = d_children d \<and> rehash en d' = Inr d'"
  using assms by (auto simp: rehash_def split: sum.splits)

lemma Parent_Some_reflects:
  assumes "Parent en fs nd = (Inr (Some p), fs')"
  shows "reflects en p nd"
proof -
  from assms obtain ph where ph: "parentHash nd = Some ph"
    by (cases "parentHash nd") (auto simp: Parent_def)
  obtain q fs1 where q: "NodeByHash en fs ph = (q, fs1)" by (cases "NodeByHash en fs ph")
  from assms ph q obtain d d' where
    d: "rehash en (d\<lparr>d_children := put_entry (Name nd) (Hash nd) (d_children d)\<rparr>) = Inr d'"
      "p = DirectoryNode d'"
    by (auto simp: Parent_def split: sum.splits Node.splits)
  from rehash_reflects [OF d(1)] show ?thesis
    by (simp add: reflects_def d(2) map_of_put_entry)
qed

lemma Parent_None_root:
  assumes "Parent en fs nd = (Inr None, fs')"
  shows "parentHash nd = None"
proof (cases "parentHash nd")
  case None
  then show ?thesis .
next
  case (Some ph)
  obtain q fs1 where q: "NodeByHash en fs ph = (q, fs1)" by (cases "NodeByHash en fs ph")
  with assms Some show ?thesis
    by (auto simp: Parent_def split: sum.splits Node.splits)
qed

lemma split_slash_Cons:
  "split_slash (c # s) =
     (if c = CHR ''/'' then [] # split_slash s
      else (c # hd (split_slash s)) # tl (split_slash s))"
  by (simp add: split_slash_def)

lemma split_slash_no_slash: "split_slash s \<noteq> [] \<and> (\<forall>e \<in> set (split_slash s). CHR ''/'' \<notin> set e)"
proof (induction s)
  case Nil
  then show ?case by (simp add: split_slash_def)
next
  case (Cons c s)
  then obtain x xs where x: "split_slash s = x # xs" by (cases "split_slash s") auto
  with Cons show ?case by (auto simp: split_slash_Cons)
qed

lemma putPath_objects_frame:
  assumes "putPath kv path d = Inr kv'"
  shows "entries kv' [''stage/objects''] = entries kv [''stage/objects'']"
proof -
  have "butlast (split_slash path) \<noteq> [''stage/objects'']"
  proof
    assume "butlast (split_slash path) = [''stage/objects'']"
    then have "''stage/objects'' \<in> set (butlast (split_slash path))" by simp
    then have "''stage/objects'' \<in> set (split_slash path)" by (rule in_set_butlastD)
    with split_slash_no_slash [of path] show False by auto
  qed
  with assms show ?thesis
    by (auto simp: putPath_def Let_def Bucket_def Put_def split: if_splits)
qed

lemma stage_objects_other:
  assumes "stage_objects en as es = Some es'"
    and "k \<notin> (\<lambda>a. B58String en (Hash a)) ` set as"
  shows "map_of es' k = map_of es k"
  using assms
  by (induction as arbitrary: es) (auto simp: map_of_put_entry split: sum.splits)

lemma stage_objects_stored:
  assumes "stage_objects en as es = Some es'"
    and "distinct (map (\<lambda>a. B58String en (Hash a)) as)"
    and "a \<in> set as"
  shows "case marshalNode en a of
           Inl e \<Rightarrow> False
         | Inr data \<Rightarrow> map_of es' (B58String en (Hash a)) = Some data"
  using assms
proof (induction as arbitrary: es)
  case Nil
  then show ?case by simp
next
  case (Cons b bs)
  from Cons.prems(1) obtain data where
    m: "marshalNode en b = Inr data"
    and r: "stage_objects en bs (put_entry (B58String en (Hash b)) data es) = Some es'"
    by (auto split: sum.splits)
  show ?case
  proof (cases "a = b")
    case True
    from Cons.prems(2) have "B58String en (Hash b) \<notin> (\<lambda>a. B58String en (Hash a)) ` set bs"
      by simp
    from stage_objects_other [OF r this] show ?thesis
      by (simp add: True m map_of_put_entry)
  next
    case False
    with Cons.prems have "a \<in> set bs" "distinct (map (\<lambda>a. B58String en (Hash a)) bs)" by simp_all
    from Cons.IH [OF r this(2,1)] show ?thesis .
  qed
qed

lemma NodeByHash_cached_frame:
  assumes "NodeByHash en fs h = (Inr x, fs')" and "cached en fs a"
    and "nodePath en a \<noteq> nodePath en x"
  shows "cached en fs' a"
  using assms
  by (auto simp: NodeByHash_def cached_def InsertWithData_def Let_def
      split: option.splits sum.splits)

lemma Parent_cached_frame:
  assumes "Parent en fs nd = (Inr (Some par), fs')" and "cached en fs a"
    and stable: "\<forall>d c h. nodePath en (DirectoryNode (d\<lparr>d_children := c, d_hash := h\<rparr>)) =
                          nodePath en (DirectoryNode d)"
    and "nodePath en a \<noteq> nodePath en par"
  shows "cached en fs' a"
proof -
  from assms(1) obtain ph where ph: "parentHash nd = Some ph"
    by (cases "parentHash nd") (auto simp: Parent_def)
  obtain q fs1 where q: "NodeByHash en fs ph = (q, fs1)" by (cases "NodeByHash en fs ph")
  from assms(1) ph q obtain d d' where
    d: "q = Inr (DirectoryNode d)" "fs' = fs1"
      "rehash en (d\<lparr>d_children := put_entry (Name nd) (Hash nd) (d_children d)\<rparr>) = Inr d'"
      "par = DirectoryNode d'"
    by (auto simp: Parent_def split: sum.splits Node.splits)
  from d(3) obtain h where "d' = d\<lparr>d_children := put_entry (Name nd) (Hash nd) (d_children d), d_hash := h\<rparr>"
    by (auto simp: rehash_def split: sum.splits)
  with stable d(4) have "nodePath en par = nodePath en (DirectoryNode d)" by simp
  with assms(4) have "nodePath en a \<noteq> nodePath en (DirectoryNode d)" by simp
  from NodeByHash_cached_frame [OF q [unfolded d(1)] assms(2) this] d(2) show ?thesis by simp
qed

lemma StageNode_run_Suc_success:
  assumes "StageNode_run (Suc k) en fs nd = Some (None, fs', chain)"
  obtains data kv1 kv2 r fs2 where
    "marshalNode en nd = Inr data"
    "Put (fs_kv fs) [''stage/objects''] (B58String en (Hash nd)) data = Inr kv1"
    "putPath kv1 (if GetType nd = NodeTypeDirectory
                  then appendDot (path_Join en [''stage/tree'', nodePath en nd])
                  else path_Join en [''stage/tree'', nodePath en nd]) (Hash nd) = Inr kv2"
    "Parent en (InsertWithData (fs\<lparr>fs_kv := kv2\<rparr>) (B58String en (Hash nd)) (nodePath en nd) nd) nd = (Inr r, fs2)"
    "r = None \<longrightarrow> fs' = fs2 \<and> chain = [nd]"
    "\<forall>par. r = Some par \<longrightarrow> (\<exists>rest. StageNode_run k en fs2 par = Some (None, fs', rest) \<and> chain = nd # rest)"
  using assms
  by (simp add: Let_def Bucket_def split: if_splits sum.splits prod.splits option.splits)

lemma StageNode_run_objects:
  assumes "StageNode_run k en fs nd = Some (None, fs', chain)"
  shows "chain \<noteq> [] \<and> hd chain = nd \<and> parentHash (last chain) = None \<and>
         successively (\<lambda>c p. reflects en p c) chain \<and>
         stage_objects en chain (entries (fs_kv fs) [''stage/objects'']) =
           Some (entries (fs_kv fs') [''stage/objects''])"
  using assms
proof (induction k arbitrary: fs nd chain)
  case 0
  then show ?case by simp
next
  case (Suc k)
  let ?b58 = "B58String en (Hash nd)"
  let ?fs1 = "\<lambda>kv2. InsertWithData (fs\<lparr>fs_kv := kv2\<rparr>) ?b58 (nodePath en nd) nd"
  from Suc.prems obtain data kv1 kv2 r fs2 where
    m: "marshalNode en nd = Inr data"
    and put: "Put (fs_kv fs) [''stage/objects''] ?b58 data = Inr kv1"
    and pp: "putPath kv1 (if GetType nd = NodeTypeDirectory
                  then appendDot (path_Join en [''stage/tree'', nodePath en nd])
                  else path_Join en [''stage/tree'', nodePath en nd]) (Hash nd) = Inr kv2"
    and par: "Parent en (?fs1 kv2) nd = (Inr r, fs2)"
    and root: "r = None \<longrightarrow> fs' = fs2 \<and> chain = [nd]"
    and rec: "\<forall>p. r = Some p \<longrightarrow> (\<exists>rest. StageNode_run k en fs2 p = Some (None, fs', rest) \<and> chain = nd # rest)"
    by (rule StageNode_run_Suc_success)
  from Parent_frame [OF par] have kv_fs2: "fs_kv fs2 = kv2"
    by (simp add: InsertWithData_def)
  from put have "entries kv1 [''stage/objects''] =
      put_entry ?b58 data (entries (fs_kv fs) [''stage/objects''])"
    by (auto simp: Put_def split: if_splits)
  with putPath_objects_frame [OF pp] kv_fs2
  have obj2: "entries (fs_kv fs2) [''stage/objects''] =
      put_entry ?b58 data (entries (fs_kv fs) [''stage/objects''])"
    by simp
  show ?case
  proof (cases r)
    case None
    with root have "fs' = fs2" "chain = [nd]" by simp_all
    moreover from par None have "parentHash nd = None" by (simp add: Parent_None_root)
    ultimately show ?thesis using obj2 m by simp
  next
    case (Some p)
    with rec obtain rest where
      run: "StageNode_run k en fs2 p = Some (None, fs', rest)" and ch: "chain = nd # rest"
      by auto
    from Suc.IH [OF run]
    have ih: "rest \<noteq> []" "hd rest = p" "parentHash (last rest) = None"
      "successively (\<lambda>c p. reflects en p c) rest"
      "stage_objects en rest (entries (fs_kv fs2) [''stage/objects'']) =
         Some (entries (fs_kv fs') [''stage/objects''])"
      by simp_all
    from ih(1,2) obtain rest' where rest: "rest = p # rest'" by (cases rest) auto
    have refl: "reflects en p nd" using par Some by (simp add: Parent_Some_reflects)
    show ?thesis
      using ih refl obj2 m by (auto simp: ch rest)
  qed
qed

lemma StageNode_run_indexed:
  assumes "StageNode_run k en fs nd = Some (None, fs', chain)"
  shows "(\<forall>x. fs_index fs x \<noteq> None \<longrightarrow> fs_index fs' x \<noteq> None) \<and>
         (\<forall>a \<in> set chain. fs_index fs' (B58String en (Hash a)) \<noteq> None)"
  using assms
proof (induction k arbitrary: fs nd chain)
  case 0
  then show ?case by simp
next
  case (Suc k)
  let ?b58 = "B58String en (Hash nd)"
  let ?fs1 = "\<lambda>kv2. InsertWithData (fs\<lparr>fs_kv := kv2\<rparr>) ?b58 (nodePath en nd) nd"
  from Suc.prems obtain data kv1 kv2 r fs2 where
    par: "Parent en (?fs1 kv2) nd = (Inr r, fs2)"
    and root: "r = None \<longrightarrow> fs' = fs2 \<and> chain = [nd]"
    and rec: "\<forall>p. r = Some p \<longrightarrow> (\<exists>rest. StageNode_run k en fs2 p = Some (None, fs', rest) \<and> chain = nd # rest)"
    by (rule StageNode_run_Suc_success)
  from Parent_frame [OF par]
  have idx2: "\<forall>x. fs_index (?fs1 kv2) x \<noteq> None \<longrightarrow> fs_index fs2 x \<noteq> None"
    by simp
  then have idx02: "\<forall>x. fs_index fs x \<noteq> None \<longrightarrow> fs_index fs2 x \<noteq> None"
    and here: "fs_index fs2 ?b58 \<noteq> None"
    by (simp_all add: InsertWithData_def)
  show ?case
  proof (cases r)
    case None
    with root idx02 here show ?thesis by simp
  next
    case (Some p)
    with rec obtain rest where
      run: "StageNode_run k en fs2 p = Some (None, fs', rest)" and ch: "chain = nd # rest"
      by auto
    from Suc.IH [OF run] idx02 here show ?thesis by (simp add: ch)
  qed
qed

lemma StageNode_run_cached_frame:
  assumes "StageNode_run k en fs nd = Some (None, fs', chain)"
    and "\<forall>d c h. nodePath en (DirectoryNode (d\<lparr>d_children := c, d_hash := h\<rparr>)) =
                  nodePath en (DirectoryNode d)"
    and "cached en fs a"
    and "B58String en (Hash a) \<notin> (\<lambda>b. B58String en (Hash b)) ` set chain"
    and "nodePath en a \<notin> nodePath en ` set chain"
  shows "cached en fs' a"
  using assms
proof (induction k arbitrary: fs nd chain)
  case 0
  then show ?case by simp
next
  case (Suc k)
  let ?b58 = "B58String en (Hash nd)"
  let ?fs1 = "\<lambda>kv2. InsertWithData (fs\<lparr>fs_kv := kv2\<rparr>) ?b58 (nodePath en nd) nd"
  from Suc.prems(1) obtain data kv1 kv2 r fs2 where
    par: "Parent en (?fs1 kv2) nd = (Inr r, fs2)"
    and root: "r = None \<longrightarrow> fs' = fs2 \<and> chain = [nd]"
    and rec: "\<forall>p. r = Some p \<longrightarrow> (\<exists>rest. StageNode_run k en fs2 p = Some (None, fs', rest) \<and> chain = nd # rest)"
    by (rule StageNode_run_Suc_success)
  have nd: "nd \<in> set chain"
    using root rec by (cases r) auto
  with Suc.prems(4,5) have ne: "B58String en (Hash a) \<noteq> ?b58" "nodePath en a \<noteq> nodePath en nd"
    by auto
  with Suc.prems(3) have c1: "cached en (?fs1 kv2) a"
    by (simp add: cached_def InsertWithData_def)
  show ?case
  proof (cases r)
    case None
    with par have "fs2 = ?fs1 kv2" by (auto simp: Parent_def split: option.splits prod.splits sum.splits Node.splits)
    with None root c1 show ?thesis by simp
  next
    case (Some p)
    with rec obtain rest where
      run: "StageNode_run k en fs2 p = Some (None, fs', rest)" and ch: "chain = nd # rest"
      by auto
    from StageNode_run_objects [OF run] have "p \<in> set rest" by (cases rest) auto
    with Suc.prems(5) ch have "nodePath en a \<noteq> nodePath en p" by auto
    from Parent_cached_frame [OF par [unfolded Some] c1 Suc.prems(2) this]
    have c2: "cached en fs2 a" .
    from Suc.prems(4,5) ch show ?thesis
      by (intro Suc.IH [OF run Suc.prems(2) c2]) auto
  qed
qed

lemma StageNode_run_cached:
  assumes "StageNode_run k en fs nd = Some (None, fs', chain)"
    and "\<forall>d c h. nodePath en (DirectoryNode (d\<lparr>d_children := c, d_hash := h\<rparr>)) =
                  nodePath en (DirectoryNode d)"
    and "distinct (map (\<lambda>b. B58String en (Hash b)) chain)"
    and "distinct (map (nodePath en) chain)"
    and "a \<in> set chain"
  shows "cached en fs' a"
  using assms
proof (induction k arbitrary: fs nd chain)
  case 0
  then show ?case by simp
next
  case (Suc k)
  let ?b58 = "B58String en (Hash nd)"
  let ?fs1 = "\<lambda>kv2. InsertWithData (fs\<lparr>fs_kv := kv2\<rparr>) ?b58 (nodePath en nd) nd"
  from Suc.prems(1) obtain data kv1 kv2 r fs2 where
    par: "Parent en (?fs1 kv2) nd = (Inr r, fs2)"
    and root: "r = None \<longrightarrow> fs' = fs2 \<and> chain = [nd]"
    and rec: "\<forall>p. r = Some p \<longrightarrow> (\<exists>rest. StageNode_run k en fs2 p = Some (None, fs', rest) \<and> chain = nd # rest)"
    by (rule StageNode_run_Suc_success)
  have c1: "cached en (?fs1 kv2) nd"
    by (simp add: cached_def InsertWithData_def)
  show ?case
  proof (cases r)
    case None
    with par have "fs2 = ?fs1 kv2" by (auto simp: Parent_def split: option.splits prod.splits sum.splits Node.splits)
    with None root c1 Suc.prems(5) show ?thesis by simp
  next
    case (Some p)
    with rec obtain rest where
      run: "StageNode_run k en fs2 p = Some (None, fs', rest)" and ch: "chain = nd # rest"
      by auto
    from Suc.prems(3,4) ch have dist: "distinct (map (\<lambda>b. B58String en (Hash b)) rest)"
      "distinct (map (nodePath en) rest)"
      "?b58 \<notin> (\<lambda>b. B58String en (Hash b)) ` set rest"
      "nodePath en nd \<notin> nodePath en ` set rest"
      by simp_all
    show ?thesis
    proof (cases "a = nd")
      case True
      from StageNode_run_objects [OF run] have "p \<in> set rest" by (cases rest) auto
      with dist(4) have "nodePath en nd \<noteq> nodePath en p" by auto
      from Parent_cached_frame [OF par [unfolded Some] c1 Suc.prems(2) this]
      have "cached en fs2 nd" .
      from StageNode_run_cached_frame [OF run Suc.prems(2) this dist(3,4)] True
      show ?thesis by simp
    next
      case False
      with Suc.prems(5) ch have "a \<in> set rest" by simp
      from Suc.IH [OF run Suc.prems(2) dist(1,2) this] show ?thesis .
    qed
  qed
qed

text \<open>
  C2. When \<open>StageNode\<close> returns without error for a node \<open>n\<close>, the nodes it has staged
  form a chain that starts with \<open>n\<close> and ends with a node without parent (the root),
  and every node after \<open>n\<close> is a directory that was re-staged with its child's hash
  in its child list and with its own hash recomputed from its serialized form. The
  bucket \<open>stage/objects\<close> is afterwards what it was before with the serialized form of
  every node of the chain put under its hash, in this order, and the index cache
  knows the hash of every node of the chain. So when the hashes of the nodes of the
  chain are pairwise different, \<open>stage/objects\<close> holds under the hash of each of them
  its serialized form; when moreover their paths are pairwise different and the path
  of a directory does not depend on its child list and hash, the cache resolves the
  hash of each of them to the node itself, with the recomputed hash.
\<close>

theorem StageNode_stages_chain:
  assumes "StageNode k en fs n = Some (None, fs')"
  shows "\<exists>chain. StageNode_run k en fs n = Some (None, fs', chain) \<and>
           hd chain = n \<and> parentHash (last chain) = None \<and>
           successively (\<lambda>c p. reflects en p c) chain \<and>
           stage_objects en chain (entries (fs_kv fs) [''stage/objects'']) =
             Some (entries (fs_kv fs') [''stage/objects'']) \<and>
           (\<forall>a \<in> set chain. fs_index fs' (B58String en (Hash a)) \<noteq> None) \<and>
           (distinct (map (\<lambda>a. B58String en (Hash a)) chain) \<longrightarrow>
              (\<forall>a \<in> set chain. stored en fs' a)) \<and>
           (distinct (map (\<lambda>a. B58String en (Hash a)) chain) \<and>
            distinct (map (nodePath en) chain) \<and>
            (\<forall>d c h. nodePath en (DirectoryNode (d\<lparr>d_children := c, d_hash := h\<rparr>)) =
                     nodePath en (DirectoryNode d)) \<longrightarrow>
              (\<forall>a \<in> set chain. cached en fs' a))"
proof -
  from assms obtain chain where run: "StageNode_run k en fs n = Some (None, fs', chain)"
    by (auto simp: StageNode_def split: option.splits)
  note obj = StageNode_run_objects [OF run]
  have "stored en fs' a"
    if "distinct (map (\<lambda>a. B58String en (Hash a)) chain)" "a \<in> set chain" for a
  proof -
    from obj have "stage_objects en chain (entries (fs_kv fs) [''stage/objects'']) =
        Some (entries (fs_kv fs') [''stage/objects''])" by simp
    from stage_objects_stored [OF this that] show ?thesis by (simp add: stored_def)
  qed
  moreover have "cached en fs' a"
    if "distinct (map (\<lambda>a. B58String en (Hash a)) chain)" "distinct (map (nodePath en) chain)"
      "\<forall>d c h. nodePath en (DirectoryNode (d\<lparr>d_children := c, d_hash := h\<rparr>)) =
                nodePath en (DirectoryNode d)" "a \<in> set chain" for a
    using StageNode_run_cached [OF run that(3,1,2,4)] .
  ultimately show ?thesis using run obj StageNode_run_indexed [OF run] by blast
qed

lemma StageNode_run_toy:
  "\<exists>fs'. StageNode_run 3 env_toy fs_tree (FileNode file_x) =
           Some (None, fs', [FileNode file_x, DirectoryNode dir_restaged]) \<and>
         entries (fs_kv fs') [''stage/objects''] = [(''6'', [1, 6]), (''8'', [2, 8, 6])]"
  by (simp add: numeral_3_eq_3 Parent_def NodeByHash_def loadNode_def rehash_def putPath_def
      split_slash_def appendDot_def HasSuffix_def InsertWithData_def Bucket_def Get_def Put_def
      Let_def hexdigit_def env_toy_def fs_tree_def file_x_def dir_restaged_def)

theorem StageNode_stages_chain_witness:
  "\<exists>fs'. StageNode 3 env_toy fs_tree (FileNode file_x) = Some (None, fs') \<and>
         StageNode_run 3 env_toy fs_tree (FileNode file_x) =
           Some (None, fs', [FileNode file_x, DirectoryNode dir_restaged]) \<and>
         distinct (map (\<lambda>a. B58String env_toy (Hash a)) [FileNode file_x, DirectoryNode dir_restaged]) \<and>
         distinct (map (nodePath env_toy) [FileNode file_x, DirectoryNode dir_restaged]) \<and>
         stored env_toy fs' (FileNode file_x) \<and> cached env_toy fs' (FileNode file_x) \<and>
         stored env_toy fs' (DirectoryNode dir_restaged) \<and>
         cached env_toy fs' (DirectoryNode dir_restaged) \<and>
         reflects env_toy (DirectoryNode dir_restaged) (FileNode file_x) \<and>
         parentHash (DirectoryNode dir_restaged) = None \<and>
         entries (fs_kv fs') [''stage/objects''] = [(''6'', [1, 6]), (''8'', [2, 8, 6])]"
proof -
  let ?chain = "[FileNode file_x, DirectoryNode dir_restaged]"
  from StageNode_run_toy obtain fs' where
    run: "StageNode_run 3 env_toy fs_tree (FileNode file_x) = Some (None, fs', ?chain)"
    and obj: "entries (fs_kv fs') [''stage/objects''] = [(''6'', [1, 6]), (''8'', [2, 8, 6])]"
    by blast
  have st: "StageNode 3 env_toy fs_tree (FileNode file_x) = Some (None, fs')"
    by (simp add: StageNode_def run)
  have keys: "distinct (map (\<lambda>a. B58String env_toy (Hash a)) ?chain)"
    by (simp add: env_toy_def file_x_def dir_restaged_def hexdigit_def)
  have paths: "distinct (map (nodePath env_toy) ?chain)"
    by (simp add: env_toy_def file_x_def dir_restaged_def)
  have stable: "\<forall>d c h. nodePath env_toy (DirectoryNode (d\<lparr>d_children := c, d_hash := h\<rparr>)) =
                  nodePath env_toy (DirectoryNode d)"
    by (simp add: env_toy_def)
  from StageNode_stages_chain [OF st] run keys paths stable
  have "stored env_toy fs' (FileNode file_x)" "cached env_toy fs' (FileNode file_x)"
    "stored env_toy fs' (DirectoryNode dir_restaged)" "cached env_toy fs' (DirectoryNode dir_restaged)"
    "reflects env_toy (DirectoryNode dir_restaged) (FileNode file_x)"
    "parentHash (DirectoryNode dir_restaged) = None"
    by simp_all
  with st run obj keys paths show ?thesis by blast
qed

end
